theory Spec2Isabelle
  imports Complex_Main
begin

section \<open>Data model (preprocessing.py)\<close>

text \<open>
  Exceptions of the Python runtime that the modelled functions can raise. A \<^verbatim>\<open>ValueError\<close>
  of \<^verbatim>\<open>int\<close> carries what its message is formatted from: the string that is not a literal
  (\<^verbatim>\<open>invalid literal for int() with base 10: '...'\<close>), or the limit and the number of digits
  (\<^verbatim>\<open>Exceeds the limit (4300 digits) for integer string conversion: value has 4301 digits\<close>).
\<close>

datatype value_error = InvalidLiteral string | ExceedsDigitLimit nat nat

datatype py_error = ValueError value_error | IndexError | ZeroDivisionError

text \<open>
  A numpy array as \<^verbatim>\<open>tokenize_sents\<close> builds it. The array starts as an empty \<^verbatim>\<open>int32\<close>
  array and grows by \<^verbatim>\<open>np.append\<close>, which converts the appended Python integer to an array of
  its own and concatenates: the result has the common type of the two. An integer array
  (\<^verbatim>\<open>int32\<close> or \<^verbatim>\<open>int64\<close>) holds the integers themselves; a \<^verbatim>\<open>float64\<close> array holds rounded
  values; an \<^verbatim>\<open>object\<close> array holds Python integers and floats. The model keeps the kind of
  the array and its elements, not the width of the integer type.
\<close>

datatype np_elem = PyInt int | PyFloat rat

datatype np_array = IntArray "int list" | FloatArray "rat list" | ObjectArray "np_elem list"

text \<open>
  The frozen dataclasses of \<^verbatim>\<open>preprocessing.py\<close>. Tokens are strings, the values of a
  dictionary are Python integers. The fields of \<^verbatim>\<open>LabeledAlignment\<close> are lists of tuples; the metrics only
  hash and compare the tuples, and the parser can build tuples of any arity, so the element
  type is a parameter: \<open>int \<times> int\<close> for the declared \<^verbatim>\<open>Tuple[int, int]\<close>, \<open>int list\<close> for
  what \<^verbatim>\<open>tuple(map(int, ...))\<close> produces.
\<close>

record SentencePair =
  source :: "string list"
  target :: "string list"

record TokenizedSentencePair =
  source_tokens :: np_array
  target_tokens :: np_array

record 'a LabeledAlignment =
  sure :: "'a list"
  possible :: "'a list"

section \<open>Corpus parser (preprocessing.py, extract\_sentences)\<close>

subsection \<open>String primitives of Python\<close>

text \<open>
  A string is a list of characters, and a character is a code point below 256.

  \<^verbatim>\<open>s.replace(old, new)\<close> scans from the left and replaces every non-overlapping
  occurrence of \<^verbatim>\<open>old\<close>; for an empty \<^verbatim>\<open>old\<close> it puts \<^verbatim>\<open>new\<close> before every character and at
  the end.
\<close>

fun str_replace :: "string \<Rightarrow> string \<Rightarrow> string \<Rightarrow> string" where
  "str_replace old new [] = (if old = [] then new else [])"
| "str_replace old new (c # cs) =
     (if old = [] then new @ c # str_replace old new cs
      else if take (length old) (c # cs) = old
           then new @ str_replace old new (drop (length old - 1) cs)
           else c # str_replace old new cs)"

text \<open>
  \<^verbatim>\<open>s.split(sep)\<close> with a one-character separator: the pieces between the separators,
  empty pieces kept, so the result is never the empty list.
\<close>

fun str_split :: "char \<Rightarrow> string \<Rightarrow> string list" where
  "str_split sep [] = [[]]"
| "str_split sep (c # cs) =
     (if c = sep then [] # str_split sep cs
      else (case str_split sep cs of
              [] \<Rightarrow> [[c]]
            | piece # pieces \<Rightarrow> (c # piece) # pieces))"

text \<open>
  \<^verbatim>\<open>int(s)\<close> on a string, base 10, as CPython 3.11 parses it: white space is skipped, then
  a sign is read, then the digits are scanned, with single underscores allowed between
  two digits; a leading, doubled or trailing underscore is an invalid literal. Then the
  number of digits is compared with the interpreter's limit
  (\<^verbatim>\<open>sys.get_int_max_str_digits()\<close>, 4300 unless configured, 0 for no limit; strings of at
  most 640 digits are never refused). Then at least one digit must have been read, and only
  white space may follow. Among the code points below 256 the white space of \<^verbatim>\<open>int\<close> is
  tab, line feed, vertical tab, form feed, carriage return, space, U+0085 and U+00A0, and the
  decimal digits are \<^verbatim>\<open>0\<close> to \<^verbatim>\<open>9\<close>.
\<close>

definition is_space :: "char \<Rightarrow> bool" where
  "is_space c =
     (c \<in> set [CHR 0x09, CHR 0x0A, CHR 0x0B, CHR 0x0C, CHR 0x0D, CHR 0x20, CHR 0x85, CHR 0xA0])"

definition is_digit :: "char \<Rightarrow> bool" where
  "is_digit c = (48 \<le> (of_char c :: nat) \<and> (of_char c :: nat) \<le> 57)"

definition digit_value :: "char \<Rightarrow> int" where
  "digit_value c = int (of_char c) - 48"

text \<open>
  The scan returns the value read, the number of digits and the rest of the string, or
  \<open>None\<close> for a doubled or trailing underscore.
\<close>

fun scan_digits :: "string \<Rightarrow> int \<Rightarrow> nat \<Rightarrow> bool \<Rightarrow> (int \<times> nat \<times> string) option" where
  "scan_digits [] acc digits prev_underscore =
     (if prev_underscore then None else Some (acc, digits, []))"
| "scan_digits (c # cs) acc digits prev_underscore =
     (if is_digit c then scan_digits cs (10 * acc + digit_value c) (Suc digits) False
      else if c = CHR ''_'' then
        (if prev_underscore then None else scan_digits cs acc digits True)
      else if prev_underscore then None
      else Some (acc, digits, c # cs))"

definition py_int :: "nat \<Rightarrow> string \<Rightarrow> py_error + int" where
  "py_int max_str_digits s =
     (let t = dropWhile is_space s;
          negative = (t \<noteq> [] \<and> hd t = CHR ''-'');
          u = (if t \<noteq> [] \<and> (hd t = CHR ''+'' \<or> hd t = CHR ''-'') then tl t else t)
      in if u \<noteq> [] \<and> hd u = CHR ''_'' then Inl (ValueError (InvalidLiteral s))
         else (case scan_digits u 0 0 False of
                 None \<Rightarrow> Inl (ValueError (InvalidLiteral s))
               | Some (v, digits, rest) \<Rightarrow>
                   if 0 < max_str_digits \<and> 640 < digits \<and> max_str_digits < digits
                   then Inl (ValueError (ExceedsDigitLimit max_str_digits digits))
                   else if digits = 0 \<or> dropWhile is_space rest \<noteq> []
                   then Inl (ValueError (InvalidLiteral s))
                   else Inr (if negative then - v else v)))"

subsection \<open>extract\_sentences\<close>

text \<open>
  Line 53: every \<^verbatim>\<open>&\<close> of the text read from the file is replaced before the text is given
  to the XML parser.
\<close>

definition escape_ampersands :: "string \<Rightarrow> string" where
  "escape_ampersands all_text = str_replace ''&'' ''&amp;'' all_text"

text \<open>
  Reading the file and \<^verbatim>\<open>ET.fromstring\<close> belong to the standard library. The loop of
  \<^verbatim>\<open>extract_sentences\<close> sees the parsed tree: the children of the root are the blocks, and
  of a block the loop reads only the \<^verbatim>\<open>.text\<close> of its children, a string or \<^verbatim>\<open>None\<close>.
  So a block is the list of the texts of its children. \<^verbatim>\<open>block[i]\<close> raises \<^verbatim>\<open>IndexError\<close>
  when the block has no child \<open>i\<close>.
\<close>

type_synonym xml_block = "string option list"

definition child_text :: "xml_block \<Rightarrow> nat \<Rightarrow> py_error + string option" where
  "child_text block i = (if i < length block then Inr (block ! i) else Inl IndexError)"

definition split_text :: "string option \<Rightarrow> string list" where
  "split_text text = (case text of None \<Rightarrow> [] | Some t \<Rightarrow> str_split CHR '' '' t)"

text \<open>
  \<^verbatim>\<open>tuple(map(int, item.split('-')))\<close>: a tuple with one integer for each piece, whatever
  their number; the first piece that \<^verbatim>\<open>int\<close> rejects raises its \<^verbatim>\<open>ValueError\<close>. The limit on
  the digits is a setting of the interpreter, so it is a parameter of the parser.
\<close>

fun map_int :: "nat \<Rightarrow> string list \<Rightarrow> py_error + int list" where
  "map_int max_str_digits [] = Inr []"
| "map_int max_str_digits (piece # pieces) =
     (case py_int max_str_digits piece of
        Inl e \<Rightarrow> Inl e
      | Inr v \<Rightarrow>
          (case map_int max_str_digits pieces of Inl e \<Rightarrow> Inl e | Inr vs \<Rightarrow> Inr (v # vs)))"

fun convert_items :: "nat \<Rightarrow> string list \<Rightarrow> py_error + int list list" where
  "convert_items max_str_digits [] = Inr []"
| "convert_items max_str_digits (item # items) =
     (case map_int max_str_digits (str_split CHR ''-'' item) of
        Inl e \<Rightarrow> Inl e
      | Inr tup \<Rightarrow>
          (case convert_items max_str_digits items of
             Inl e \<Rightarrow> Inl e
           | Inr tups \<Rightarrow> Inr (tup # tups)))"

text \<open>
  One turn of the loop reads the four texts (lines 58 to 74), so a missing child raises
  \<^verbatim>\<open>IndexError\<close> before any \<^verbatim>\<open>int\<close> is called; then it converts the sure items and then the
  possible items. The two result lists are local to the function, so an exception discards
  what was appended before it.
\<close>

fun extract_loop ::
  "nat \<Rightarrow> xml_block list \<Rightarrow> SentencePair list \<times> int list LabeledAlignment list \<Rightarrow>
     py_error + SentencePair list \<times> int list LabeledAlignment list" where
  "extract_loop max_str_digits [] (sentence_pair_list, labeled_alignment_list) =
     Inr (sentence_pair_list, labeled_alignment_list)"
| "extract_loop max_str_digits (block # blocks) (sentence_pair_list, labeled_alignment_list) =
     (case child_text block 0 of Inl e \<Rightarrow> Inl e | Inr text0 \<Rightarrow>
      (case child_text block 1 of Inl e \<Rightarrow> Inl e | Inr text1 \<Rightarrow>
      (case child_text block 2 of Inl e \<Rightarrow> Inl e | Inr text2 \<Rightarrow>
      (case child_text block 3 of Inl e \<Rightarrow> Inl e | Inr text3 \<Rightarrow>
      (case convert_items max_str_digits (split_text text2) of Inl e \<Rightarrow> Inl e | Inr sure_list \<Rightarrow>
      (case convert_items max_str_digits (split_text text3) of Inl e \<Rightarrow> Inl e | Inr possible_list \<Rightarrow>
         extract_loop max_str_digits blocks
           (sentence_pair_list @ [\<lparr>source = split_text text0, target = split_text text1\<rparr>],
            labeled_alignment_list @ [\<lparr>sure = sure_list, possible = possible_list\<rparr>])))))))"

definition extract_sentences ::
  "nat \<Rightarrow> xml_block list \<Rightarrow> py_error + SentencePair list \<times> int list LabeledAlignment list" where
  "extract_sentences max_str_digits blocks = extract_loop max_str_digits blocks ([], [])"

text \<open>
  The alignment item that the specification calls well formed: exactly two pieces
  separated by one hyphen, both integers.
\<close>

definition well_formed_pair :: "nat \<Rightarrow> string \<Rightarrow> bool" where
  "well_formed_pair max_str_digits item =
     (case str_split CHR ''-'' item of
        [a, b] \<Rightarrow> \<not> isl (py_int max_str_digits a) \<and> \<not> isl (py_int max_str_digits b)
      | _ \<Rightarrow> False)"

text \<open>
  The malformed blocks of the amended claim. The pieces of a block are the
  hyphen-separated pieces of its sure items followed by those of its possible items, in
  the order in which the parser converts them; \<open>rejected\<close> lists the errors that \<^verbatim>\<open>int\<close>
  raises on pieces, in that order. A block is malformed when it has fewer than 4 fields or
  \<^verbatim>\<open>int\<close> rejects one of its pieces.
\<close>

definition alignment_pieces :: "xml_block \<Rightarrow> string list" where
  "alignment_pieces block =
     concat (map (str_split CHR ''-'') (split_text (block ! 2) @ split_text (block ! 3)))"

definition rejected :: "nat \<Rightarrow> string list \<Rightarrow> py_error list" where
  "rejected max_str_digits pieces =
     concat (map (\<lambda>piece. case py_int max_str_digits piece of Inl e \<Rightarrow> [e] | Inr v \<Rightarrow> [])
       pieces)"

definition malformed_block :: "nat \<Rightarrow> xml_block \<Rightarrow> bool" where
  "malformed_block max_str_digits block =
     (length block < 4 \<or> rejected max_str_digits (alignment_pieces block) \<noteq> [])"

section \<open>Vocabulary builder (preprocessing.py, get\_token\_to\_index)\<close>

text \<open>
  A dictionary is a map from tokens to indices. The unbounded mode scans the source words
  and the target words of each sentence pair with a dictionary and a counter for each side.
\<close>

fun index_words :: "string list \<Rightarrow> (string \<rightharpoonup> int) \<times> int \<Rightarrow> (string \<rightharpoonup> int) \<times> int" where
  "index_words [] (d, counter) = (d, counter)"
| "index_words (word # rest) (d, counter) =
     (if d word = None then index_words rest (d(word \<mapsto> counter), counter + 1)
      else index_words rest (d, counter))"

fun index_pairs ::
  "SentencePair list \<Rightarrow> ((string \<rightharpoonup> int) \<times> int) \<times> ((string \<rightharpoonup> int) \<times> int) \<Rightarrow>
     ((string \<rightharpoonup> int) \<times> int) \<times> ((string \<rightharpoonup> int) \<times> int)" where
  "index_pairs [] (src, tgt) = (src, tgt)"
| "index_pairs (sp # sps) (src, tgt) =
     index_pairs sps (index_words (source sp) src, index_words (target sp) tgt)"

text \<open>
  \<^verbatim>\<open>collections.Counter\<close> is a dictionary from elements to counts that keeps insertion
  order: an association list with distinct keys. \<^verbatim>\<open>c[elem] += n\<close> reads 0 for a missing
  key, updates a present key in place and appends a new one. \<^verbatim>\<open>Counter(iterable)\<close> counts
  the elements one by one; \<^verbatim>\<open>c += other\<close> adds the counts of \<^verbatim>\<open>other\<close> item by item and then
  drops the entries whose count is not positive; \<^verbatim>\<open>most_common()\<close> is
  \<^verbatim>\<open>sorted(items, key=count, reverse=True)\<close>, a stable sort by descending count.
\<close>

type_synonym counter = "(string \<times> int) list"

fun counter_add_item :: "counter \<Rightarrow> string \<Rightarrow> int \<Rightarrow> counter" where
  "counter_add_item [] elem n = [(elem, n)]"
| "counter_add_item ((k, c) # rest) elem n =
     (if k = elem then (k, c + n) # rest else (k, c) # counter_add_item rest elem n)"

definition Counter :: "string list \<Rightarrow> counter" where
  "Counter iterable = foldl (\<lambda>c elem. counter_add_item c elem 1) [] iterable"

definition keep_positive :: "counter \<Rightarrow> counter" where
  "keep_positive c = filter (\<lambda>item. snd item > 0) c"

definition counter_iadd :: "counter \<Rightarrow> counter \<Rightarrow> counter" where
  "counter_iadd self other =
     keep_positive (foldl (\<lambda>c item. counter_add_item c (fst item) (snd item)) self other)"

definition most_common :: "counter \<Rightarrow> (string \<times> int) list" where
  "most_common c = sort_key (\<lambda>item. - snd item) c"

fun count_pairs :: "SentencePair list \<Rightarrow> counter \<times> counter \<Rightarrow> counter \<times> counter" where
  "count_pairs [] (counter_source, counter_target) = (counter_source, counter_target)"
| "count_pairs (sp # sps) (counter_source, counter_target) =
     count_pairs sps (counter_iadd counter_source (Counter (source sp)),
                      counter_iadd counter_target (Counter (target sp)))"

text \<open>
  \<^verbatim>\<open>for index, token in enumerate(most_common): if index >= freq_cutoff: break\<close>.
\<close>

fun assign_indices ::
  "(string \<times> int) list \<Rightarrow> int \<Rightarrow> int \<Rightarrow> (string \<rightharpoonup> int) \<Rightarrow> (string \<rightharpoonup> int)" where
  "assign_indices [] index freq_cutoff d = d"
| "assign_indices (token # rest) index freq_cutoff d =
     (if index \<ge> freq_cutoff then d
      else assign_indices rest (index + 1) freq_cutoff (d(fst token \<mapsto> index)))"

definition get_token_to_index ::
  "SentencePair list \<Rightarrow> int option \<Rightarrow> (string \<rightharpoonup> int) \<times> (string \<rightharpoonup> int)" where
  "get_token_to_index sentence_pairs freq_cutoff =
     (case freq_cutoff of
        None \<Rightarrow>
          (let (src, tgt) = index_pairs sentence_pairs ((Map.empty, 0), (Map.empty, 0))
           in (fst src, fst tgt))
      | Some k \<Rightarrow>
          (let (counter_source, counter_target) = count_pairs sentence_pairs ([], []);
               most_common_source = most_common counter_source;
               most_common_target = most_common counter_target
           in (assign_indices most_common_source 0 k Map.empty,
               assign_indices most_common_target 0 k Map.empty)))"

section \<open>Tokenizer (preprocessing.py, tokenize\_sents)\<close>

text \<open>
  \<^verbatim>\<open>np.append(arr, value)\<close> with a Python integer \<^verbatim>\<open>value\<close>: numpy makes of the value an
  \<^verbatim>\<open>int64\<close> array when it fits (from \<open>-2\<^sup>6\<^sup>3\<close> to \<open>2\<^sup>6\<^sup>3 - 1\<close>), a \<^verbatim>\<open>uint64\<close> array when it lies
  from \<open>2\<^sup>6\<^sup>3\<close> to \<open>2\<^sup>6\<^sup>4 - 1\<close>, and an \<^verbatim>\<open>object\<close> array otherwise. The common type of a
  signed integer array and \<^verbatim>\<open>int64\<close> is a signed integer type, that of a signed integer array
  or a \<^verbatim>\<open>float64\<close> array and \<^verbatim>\<open>uint64\<close> is \<^verbatim>\<open>float64\<close>, and that of anything and \<^verbatim>\<open>object\<close> is
  \<^verbatim>\<open>object\<close>. A conversion to \<^verbatim>\<open>float64\<close> rounds; the rounding is the parameter \<open>fl\<close>.
\<close>

definition np_append :: "(rat \<Rightarrow> rat) \<Rightarrow> np_array \<Rightarrow> int \<Rightarrow> np_array" where
  "np_append fl arr v =
     (if - (2 ^ 63) \<le> v \<and> v < 2 ^ 63 then
        (case arr of
           IntArray xs \<Rightarrow> IntArray (xs @ [v])
         | FloatArray xs \<Rightarrow> FloatArray (xs @ [fl (of_int v)])
         | ObjectArray xs \<Rightarrow> ObjectArray (xs @ [PyInt v]))
      else if 2 ^ 63 \<le> v \<and> v < 2 ^ 64 then
        (case arr of
           IntArray xs \<Rightarrow> FloatArray (map (\<lambda>x. fl (of_int x)) xs @ [fl (of_int v)])
         | FloatArray xs \<Rightarrow> FloatArray (xs @ [fl (of_int v)])
         | ObjectArray xs \<Rightarrow> ObjectArray (xs @ [PyInt v]))
      else
        (case arr of
           IntArray xs \<Rightarrow> ObjectArray (map PyInt xs @ [PyInt v])
         | FloatArray xs \<Rightarrow> ObjectArray (map PyFloat xs @ [PyInt v])
         | ObjectArray xs \<Rightarrow> ObjectArray (xs @ [PyInt v])))"

text \<open>
  The inner loops append the index of each word to the array; a word that is not in the
  dictionary sets the flag and breaks, which is \<open>None\<close> here. Each array starts as
  \<^verbatim>\<open>np.array([], dtype=np.int32)\<close>.
\<close>

fun tokenize_words ::
  "(rat \<Rightarrow> rat) \<Rightarrow> (string \<rightharpoonup> int) \<Rightarrow> string list \<Rightarrow> np_array \<Rightarrow> np_array option" where
  "tokenize_words fl d [] arr = Some arr"
| "tokenize_words fl d (word # rest) arr =
     (case d word of
        Some i \<Rightarrow> tokenize_words fl d rest (np_append fl arr i)
      | None \<Rightarrow> None)"

fun tokenize_loop ::
  "(rat \<Rightarrow> rat) \<Rightarrow> (string \<rightharpoonup> int) \<Rightarrow> (string \<rightharpoonup> int) \<Rightarrow> SentencePair list \<Rightarrow>
     TokenizedSentencePair list \<Rightarrow> TokenizedSentencePair list" where
  "tokenize_loop fl source_dict target_dict [] res_list = res_list"
| "tokenize_loop fl source_dict target_dict (sp # sps) res_list =
     (case tokenize_words fl source_dict (source sp) (IntArray []) of
        None \<Rightarrow> tokenize_loop fl source_dict target_dict sps res_list
      | Some arr_source \<Rightarrow>
          (case tokenize_words fl target_dict (target sp) (IntArray []) of
             None \<Rightarrow> tokenize_loop fl source_dict target_dict sps res_list
           | Some arr_target \<Rightarrow>
               tokenize_loop fl source_dict target_dict sps
                 (res_list @ [\<lparr>source_tokens = arr_source, target_tokens = arr_target\<rparr>])))"

definition tokenize_sents ::
  "(rat \<Rightarrow> rat) \<Rightarrow> SentencePair list \<Rightarrow> (string \<rightharpoonup> int) \<Rightarrow> (string \<rightharpoonup> int) \<Rightarrow>
     TokenizedSentencePair list" where
  "tokenize_sents fl sentence_pairs source_dict target_dict =
     tokenize_loop fl source_dict target_dict sentence_pairs []"

section \<open>Invariants of the vocabulary builder\<close>

text \<open>
  A vocabulary whose indices are unique and contiguous from 0: the dictionary has finitely
  many keys, no two keys share an index, and the indices are exactly the integers from 0
  up to the number of keys.
\<close>

definition vocab_inv :: "('k \<rightharpoonup> int) \<Rightarrow> bool" where
  "vocab_inv d = (finite (dom d) \<and> inj_on d (dom d) \<and> ran d = {0..<int (card (dom d))})"

text \<open>
  A counter as Python keeps it: no key twice, and (after \<^verbatim>\<open>+=\<close>) only positive counts.
\<close>

definition counter_inv :: "counter \<Rightarrow> bool" where
  "counter_inv c = (distinct (map fst c) \<and> list_all (\<lambda>item. 0 < snd item) c)"

section \<open>Alignment metrics (metrics.py)\<close>

text \<open>
  \<^verbatim>\<open>compute_precision\<close>: the \<^verbatim>\<open>for la, predicted_al in zip(reference, predicted)\<close> loop with
  its two accumulators. \<^verbatim>\<open>zip\<close> stops at the end of the shorter sequence.
\<close>

fun precision_loop :: "('a LabeledAlignment \<times> 'a list) list \<Rightarrow> int \<times> int \<Rightarrow> int \<times> int" where
  "precision_loop [] (numerator, denominator) = (numerator, denominator)"
| "precision_loop ((la, predicted_al) # rest) (numerator, denominator) =
     (let set_sure = set (sure la);
          set_possible = set (possible la);
          set_predicted = set predicted_al;
          set_possible = set_possible \<union> set_sure;
          denominator = denominator + int (card set_predicted);
          numerator = numerator + int (card (set_possible \<inter> set_predicted))
      in precision_loop rest (numerator, denominator))"

definition compute_precision :: "'a LabeledAlignment list \<Rightarrow> 'a list list \<Rightarrow> int \<times> int" where
  "compute_precision reference predicted = precision_loop (zip reference predicted) (0, 0)"

fun recall_loop :: "('a LabeledAlignment \<times> 'a list) list \<Rightarrow> int \<times> int \<Rightarrow> int \<times> int" where
  "recall_loop [] (numerator, denominator) = (numerator, denominator)"
| "recall_loop ((la, predicted_al) # rest) (numerator, denominator) =
     (let set_sure = set (sure la);
          set_predicted = set predicted_al;
          denominator = denominator + int (card set_sure);
          numerator = numerator + int (card (set_predicted \<inter> set_sure))
      in recall_loop rest (numerator, denominator))"

definition compute_recall :: "'a LabeledAlignment list \<Rightarrow> 'a list list \<Rightarrow> int \<times> int" where
  "compute_recall reference predicted = recall_loop (zip reference predicted) (0, 0)"

text \<open>
  \<^verbatim>\<open>compute_aer\<close> returns \<^verbatim>\<open>1 - (pr_num + re_num) / (pr_den + re_den)\<close>. Python's \<^verbatim>\<open>/\<close> on two
  integers raises \<^verbatim>\<open>ZeroDivisionError\<close> for a zero divisor and otherwise returns the exact
  quotient rounded to a float; \<^verbatim>\<open>1 - x\<close> is the exact difference rounded to a float. Floats
  are modelled by the rationals they denote, and the rounding is the parameter \<open>fl\<close>; the
  theorems below say which properties of the rounding they rely on.
\<close>

definition compute_aer ::
  "(rat \<Rightarrow> rat) \<Rightarrow> 'a LabeledAlignment list \<Rightarrow> 'a list list \<Rightarrow> py_error + rat" where
  "compute_aer fl reference predicted =
     (let (pr_num, pr_den) = compute_precision reference predicted;
          (re_num, re_den) = compute_recall reference predicted
      in if pr_den + re_den = 0 then Inl ZeroDivisionError
         else Inr (fl (1 - fl (of_int (pr_num + re_num) / of_int (pr_den + re_den)))))"

section \<open>Properties of the metrics\<close>

lemma precision_loop_acc:
  "precision_loop zs (n, d) =
     (n + (\<Sum>(la, p)\<leftarrow>zs. int (card ((set (possible la) \<union> set (sure la)) \<inter> set p))),
      d + (\<Sum>(la, p)\<leftarrow>zs. int (card (set p))))"
  by (induction zs arbitrary: n d) (auto simp: Let_def)

lemma recall_loop_acc:
  "recall_loop zs (n, d) =
     (n + (\<Sum>(la, p)\<leftarrow>zs. int (card (set p \<inter> set (sure la)))),
      d + (\<Sum>(la, p)\<leftarrow>zs. int (card (set (sure la)))))"
  by (induction zs arbitrary: n d) (auto simp: Let_def)

lemma sum_list_zip_nth:
  "length xs = length ys \<Longrightarrow>
     (\<Sum>(x, y)\<leftarrow>zip xs ys. (f x y :: int)) = (\<Sum>i<length xs. f (xs ! i) (ys ! i))"
proof (induction xs ys rule: list_induct2)
  case Nil
  then show ?case by simp
next
  case (Cons x xs y ys)
  have "(\<Sum>i<Suc (length xs). f ((x # xs) ! i) ((y # ys) ! i)) =
        f x y + (\<Sum>i<length xs. f (xs ! i) (ys ! i))"
    by (simp add: sum.lessThan_Suc_shift del: sum.lessThan_Suc)
  with Cons show ?case by simp
qed

lemma compute_precision_sum_list:
  "compute_precision reference predicted =
     ((\<Sum>(la, p)\<leftarrow>zip reference predicted.
          int (card ((set (possible la) \<union> set (sure la)) \<inter> set p))),
      (\<Sum>(la, p)\<leftarrow>zip reference predicted. int (card (set p))))"
  by (simp add: compute_precision_def precision_loop_acc)

lemma compute_recall_sum_list:
  "compute_recall reference predicted =
     ((\<Sum>(la, p)\<leftarrow>zip reference predicted. int (card (set p \<inter> set (sure la)))),
      (\<Sum>(la, p)\<leftarrow>zip reference predicted. int (card (set (sure la)))))"
  by (simp add: compute_recall_def recall_loop_acc)

lemma compute_precision_nth:
  assumes "length reference = length predicted"
  shows "compute_precision reference predicted =
     ((\<Sum>i<length reference. int (card (set (predicted ! i) \<inter>
          (set (possible (reference ! i)) \<union> set (sure (reference ! i)))))),
      (\<Sum>i<length reference. int (card (set (predicted ! i)))))"
proof -
  have "(\<Sum>(la, p)\<leftarrow>zip reference predicted.
            int (card ((set (possible la) \<union> set (sure la)) \<inter> set p))) =
        (\<Sum>i<length reference. int (card ((set (possible (reference ! i)) \<union>
            set (sure (reference ! i))) \<inter> set (predicted ! i))))"
    using assms by (rule sum_list_zip_nth)
  moreover have "(\<Sum>(la, p)\<leftarrow>zip reference predicted. int (card (set p))) =
        (\<Sum>i<length reference. int (card (set (predicted ! i))))"
    using assms by (rule sum_list_zip_nth)
  ultimately show ?thesis
    by (simp add: compute_precision_sum_list Int_commute)
qed

lemma compute_recall_nth:
  assumes "length reference = length predicted"
  shows "compute_recall reference predicted =
     ((\<Sum>i<length reference. int (card (set (predicted ! i) \<inter> set (sure (reference ! i))))),
      (\<Sum>i<length reference. int (card (set (sure (reference ! i))))))"
proof -
  have "(\<Sum>(la, p)\<leftarrow>zip reference predicted. int (card (set p \<inter> set (sure la)))) =
        (\<Sum>i<length reference. int (card (set (predicted ! i) \<inter> set (sure (reference ! i)))))"
    using assms by (rule sum_list_zip_nth)
  moreover have "(\<Sum>(la, p)\<leftarrow>zip reference predicted. int (card (set (sure la)))) =
        (\<Sum>i<length reference. int (card (set (sure (reference ! i)))))"
    using assms by (rule sum_list_zip_nth)
  ultimately show ?thesis
    by (simp add: compute_recall_sum_list)
qed

lemma sum_list_map2_le:
  assumes "\<And>x y. (f x y :: int) \<le> g x y"
  shows "(\<Sum>(x, y)\<leftarrow>zs. f x y) \<le> (\<Sum>(x, y)\<leftarrow>zs. g x y)"
  by (induction zs) (auto simp: add_mono assms)

lemma sum_list_map2_nonneg:
  assumes "\<And>x y. (0 :: int) \<le> f x y"
  shows "0 \<le> (\<Sum>(x, y)\<leftarrow>zs. f x y)"
  by (induction zs) (auto simp: assms)

lemma precision_num_le_den:
  "fst (compute_precision reference predicted) \<le> snd (compute_precision reference predicted)"
proof -
  have "int (card ((set (possible la) \<union> set (sure la)) \<inter> set p)) \<le> int (card (set p))"
    for la :: "'a LabeledAlignment" and p
    by (simp add: card_mono)
  then show ?thesis
    unfolding compute_precision_sum_list fst_conv snd_conv by (rule sum_list_map2_le)
qed

lemma recall_num_le_den:
  "fst (compute_recall reference predicted) \<le> snd (compute_recall reference predicted)"
proof -
  have "int (card (set p \<inter> set (sure la))) \<le> int (card (set (sure la)))"
    for la :: "'a LabeledAlignment" and p
    by (simp add: card_mono)
  then show ?thesis
    unfolding compute_recall_sum_list fst_conv snd_conv by (rule sum_list_map2_le)
qed

lemma precision_num_nonneg: "0 \<le> fst (compute_precision reference predicted)"
  unfolding compute_precision_sum_list fst_conv by (rule sum_list_map2_nonneg) simp

lemma recall_num_nonneg: "0 \<le> fst (compute_recall reference predicted)"
  unfolding compute_recall_sum_list fst_conv by (rule sum_list_map2_nonneg) simp

lemma compute_aer_unfold:
  "compute_aer fl reference predicted =
     (if snd (compute_precision reference predicted) + snd (compute_recall reference predicted) = 0
      then Inl ZeroDivisionError
      else Inr (fl (1 - fl (of_int (fst (compute_precision reference predicted) +
                                     fst (compute_recall reference predicted)) /
                              of_int (snd (compute_precision reference predicted) +
                                      snd (compute_recall reference predicted))))))"
  by (simp add: compute_aer_def split: prod.splits)


section \<open>Claims about the metrics\<close>

text \<open>
  Claim C2. For gold and predicted sequences of equal length, \<open>compute_precision\<close> returns
  the pair whose numerator is the sum over the sentences of the number of distinct predicted
  pairs that lie in the union of the possible and the sure set, and whose denominator is the
  sum over the sentences of the number of distinct predicted pairs. The sure set takes part
  whether or not it is contained in the possible set, and a pair that occurs twice in a
  predicted list counts once (the denominator is also the sum of the lengths of the
  duplicate-free predicted lists).
\<close>
theorem compute_precision_spec:
  assumes "length reference = length predicted"
  shows "compute_precision reference predicted =
     ((\<Sum>i<length reference. int (card (set (predicted ! i) \<inter>
          (set (possible (reference ! i)) \<union> set (sure (reference ! i)))))),
      (\<Sum>i<length reference. int (card (set (predicted ! i)))))
    \<and> snd (compute_precision reference predicted) =
      (\<Sum>i<length reference. int (length (remdups (predicted ! i))))"
  using compute_precision_nth [OF assms] by (simp add: card_set)

theorem compute_precision_spec_witness:
  "length [\<lparr>sure = [(1::int, 1::int)], possible = [(2, 2)]\<rparr>] = length [[(1::int, 1::int), (2, 2), (1, 1), (3, 3)]]
   \<and> compute_precision [\<lparr>sure = [(1::int, 1::int)], possible = [(2, 2)]\<rparr>]
         [[(1, 1), (2, 2), (1, 1), (3, 3)]] = (2, 3)"
  using compute_precision_spec
    [of "[\<lparr>sure = [(1::int, 1::int)], possible = [(2, 2)]\<rparr>]" "[[(1, 1), (2, 2), (1, 1), (3, 3)]]"]
  by (simp add: card_insert_if)

text \<open>
  Claim C3. For gold and predicted sequences of equal length, \<open>compute_recall\<close> returns the
  pair whose numerator is the sum over the sentences of the number of distinct predicted
  pairs that are sure, and whose denominator is the sum over the sentences of the number of
  distinct sure pairs.
\<close>
theorem compute_recall_spec:
  assumes "length reference = length predicted"
  shows "compute_recall reference predicted =
     ((\<Sum>i<length reference. int (card (set (predicted ! i) \<inter> set (sure (reference ! i))))),
      (\<Sum>i<length reference. int (card (set (sure (reference ! i))))))"
  using assms by (rule compute_recall_nth)

theorem compute_recall_spec_witness:
  "length [\<lparr>sure = [(1::int, 1::int), (4, 4)], possible = [(2, 2)]\<rparr>] = length [[(1::int, 1::int), (2, 2), (1, 1), (3, 3)]]
   \<and> compute_recall [\<lparr>sure = [(1::int, 1::int), (4, 4)], possible = [(2, 2)]\<rparr>]
         [[(1, 1), (2, 2), (1, 1), (3, 3)]] = (1, 2)"
  using compute_recall_spec
    [of "[\<lparr>sure = [(1::int, 1::int), (4, 4)], possible = [(2, 2)]\<rparr>]" "[[(1, 1), (2, 2), (1, 1), (3, 3)]]"]
  by (simp add: card_insert_if)

text \<open>
  Claim C1. For gold and predicted sequences of equal length whose combined denominator is
  not zero, \<open>compute_aer\<close> returns one minus the quotient of the summed numerators (precision
  plus recall) by the summed denominators: the raw counts are added first and divided once.
  On the scenario of the specification (sure \<open>{(1,1)}\<close>, possible \<open>{(1,1),(2,2)}\<close>, predicted
  \<open>[(1,1),(2,2)]\<close>) the result is \<open>0\<close> for every rounding that represents 0 and 1.
\<close>
theorem compute_aer_spec:
  "(length reference = length predicted \<longrightarrow>
    snd (compute_precision reference predicted) + snd (compute_recall reference predicted) \<noteq> 0 \<longrightarrow>
    compute_aer fl reference predicted =
      Inr (fl (1 - fl (of_int
        ((\<Sum>i<length reference. int (card (set (predicted ! i) \<inter>
             (set (possible (reference ! i)) \<union> set (sure (reference ! i)))))) +
         (\<Sum>i<length reference. int (card (set (predicted ! i) \<inter> set (sure (reference ! i)))))) /
        of_int
        ((\<Sum>i<length reference. int (card (set (predicted ! i)))) +
         (\<Sum>i<length reference. int (card (set (sure (reference ! i))))))))))
   \<and> (fl 0 = 0 \<longrightarrow> fl 1 = 1 \<longrightarrow>
        compute_aer fl [\<lparr>sure = [(1::int, 1::int)], possible = [(1, 1), (2, 2)]\<rparr>]
          [[(1, 1), (2, 2)]] = Inr 0)"
proof (intro conjI impI)
  assume len: "length reference = length predicted"
    and nz: "snd (compute_precision reference predicted) + snd (compute_recall reference predicted) \<noteq> 0"
  show "compute_aer fl reference predicted =
      Inr (fl (1 - fl (of_int
        ((\<Sum>i<length reference. int (card (set (predicted ! i) \<inter>
             (set (possible (reference ! i)) \<union> set (sure (reference ! i)))))) +
         (\<Sum>i<length reference. int (card (set (predicted ! i) \<inter> set (sure (reference ! i)))))) /
        of_int
        ((\<Sum>i<length reference. int (card (set (predicted ! i)))) +
         (\<Sum>i<length reference. int (card (set (sure (reference ! i)))))))))"
    using nz unfolding compute_aer_unfold
    unfolding compute_precision_nth [OF len] compute_recall_nth [OF len] fst_conv snd_conv
    by simp
next
  assume "fl 0 = 0" "fl 1 = 1"
  then show "compute_aer fl [\<lparr>sure = [(1::int, 1::int)], possible = [(1, 1), (2, 2)]\<rparr>]
          [[(1, 1), (2, 2)]] = Inr 0"
    by (simp add: compute_aer_def compute_precision_def compute_recall_def Let_def card_insert_if)
qed

theorem compute_aer_spec_witness:
  "length [\<lparr>sure = [(1::int, 1::int)], possible = [(1, 1)]\<rparr>] = length [[(1::int, 1::int), (2, 2), (3, 3)]]
   \<and> snd (compute_precision [\<lparr>sure = [(1::int, 1::int)], possible = [(1, 1)]\<rparr>] [[(1, 1), (2, 2), (3, 3)]])
     + snd (compute_recall [\<lparr>sure = [(1::int, 1::int)], possible = [(1, 1)]\<rparr>] [[(1, 1), (2, 2), (3, 3)]]) \<noteq> 0
   \<and> compute_aer (\<lambda>x. x) [\<lparr>sure = [(1::int, 1::int)], possible = [(1, 1)]\<rparr>]
         [[(1, 1), (2, 2), (3, 3)]] = Inr (1 / 2)
   \<and> (\<lambda>x::rat. x) 0 = 0 \<and> (\<lambda>x::rat. x) 1 = 1
   \<and> compute_aer (\<lambda>x. x) [\<lparr>sure = [(1::int, 1::int)], possible = [(1, 1), (2, 2)]\<rparr>]
          [[(1, 1), (2, 2)]] = Inr 0"
proof -
  have nz: "snd (compute_precision [\<lparr>sure = [(1::int, 1::int)], possible = [(1, 1)]\<rparr>] [[(1, 1), (2, 2), (3, 3)]])
     + snd (compute_recall [\<lparr>sure = [(1::int, 1::int)], possible = [(1, 1)]\<rparr>] [[(1, 1), (2, 2), (3, 3)]]) \<noteq> 0"
    by (simp add: compute_precision_def compute_recall_def Let_def card_insert_if)
  show ?thesis
    using nz compute_aer_spec [of "[\<lparr>sure = [(1::int, 1::int)], possible = [(1, 1)]\<rparr>]"
        "[[(1, 1), (2, 2), (3, 3)]]" "\<lambda>x. x"]
    by (simp add: card_insert_if)
qed

text \<open>
  Claim C4. When the combined denominator (precision denominator plus recall denominator)
  is zero, \<open>compute_aer\<close> raises \<^verbatim>\<open>ZeroDivisionError\<close>; it returns no number.
\<close>
theorem compute_aer_zero_denominator:
  assumes "snd (compute_precision reference predicted) + snd (compute_recall reference predicted) = 0"
  shows "compute_aer fl reference predicted = Inl ZeroDivisionError
       \<and> (\<forall>v. compute_aer fl reference predicted \<noteq> Inr v)"
  using assms by (simp add: compute_aer_unfold)

theorem compute_aer_zero_denominator_witness:
  "snd (compute_precision [\<lparr>sure = [], possible = [(1::int, 1::int)]\<rparr>] [[]])
     + snd (compute_recall [\<lparr>sure = [], possible = [(1::int, 1::int)]\<rparr>] [[]]) = 0
   \<and> compute_aer (\<lambda>x. x) [\<lparr>sure = [], possible = [(1::int, 1::int)]\<rparr>] [[]] = Inl ZeroDivisionError"
proof -
  have z: "snd (compute_precision [\<lparr>sure = [], possible = [(1::int, 1::int)]\<rparr>] [[]])
     + snd (compute_recall [\<lparr>sure = [], possible = [(1::int, 1::int)]\<rparr>] [[]]) = 0"
    by (simp add: compute_precision_def compute_recall_def Let_def)
  show ?thesis
    using z compute_aer_zero_denominator [OF z, of "\<lambda>x. x"] by simp
qed

text \<open>
  Claim C5. On every input the precision numerator is at most the precision denominator and
  the recall numerator is at most the recall denominator; when the combined denominator is
  not zero, \<open>compute_aer\<close> returns a value between 0 and 1 (for a monotone rounding that
  represents 0 and 1, as rounding to the nearest float does).
\<close>
theorem metrics_bounds:
  "fst (compute_precision reference predicted) \<le> snd (compute_precision reference predicted)
   \<and> fst (compute_recall reference predicted) \<le> snd (compute_recall reference predicted)
   \<and> (mono fl \<longrightarrow> fl 0 = 0 \<longrightarrow> fl 1 = 1 \<longrightarrow>
        snd (compute_precision reference predicted) + snd (compute_recall reference predicted) \<noteq> 0 \<longrightarrow>
        (\<exists>v. compute_aer fl reference predicted = Inr v \<and> 0 \<le> v \<and> v \<le> 1))"
proof (intro conjI impI)
  show "fst (compute_precision reference predicted) \<le> snd (compute_precision reference predicted)"
    by (rule precision_num_le_den)
  show "fst (compute_recall reference predicted) \<le> snd (compute_recall reference predicted)"
    by (rule recall_num_le_den)
next
  assume m: "mono fl" and f0: "fl 0 = 0" and f1: "fl 1 = 1"
    and nz: "snd (compute_precision reference predicted) + snd (compute_recall reference predicted) \<noteq> 0"
  define n where "n = fst (compute_precision reference predicted) + fst (compute_recall reference predicted)"
  define d where "d = snd (compute_precision reference predicted) + snd (compute_recall reference predicted)"
  have n0: "0 \<le> n"
    unfolding n_def using precision_num_nonneg [of reference predicted]
      recall_num_nonneg [of reference predicted] by linarith
  have nd: "n \<le> d"
    unfolding n_def d_def using precision_num_le_den [of reference predicted]
      recall_num_le_den [of reference predicted] by linarith
  have dpos: "0 < d" using n0 nd nz unfolding d_def by linarith
  define q :: rat where "q = of_int n / of_int d"
  have q0: "0 \<le> q" unfolding q_def using n0 dpos by simp
  have q1: "q \<le> 1" unfolding q_def using nd dpos by simp
  have "fl 0 \<le> fl q" using m q0 by (rule monoD)
  moreover have "fl q \<le> fl 1" using m q1 by (rule monoD)
  ultimately have r: "0 \<le> 1 - fl q" "1 - fl q \<le> 1" using f0 f1 by simp_all
  have "fl 0 \<le> fl (1 - fl q)" using m r(1) by (rule monoD)
  moreover have "fl (1 - fl q) \<le> fl 1" using m r(2) by (rule monoD)
  ultimately have v: "0 \<le> fl (1 - fl q)" "fl (1 - fl q) \<le> 1" using f0 f1 by simp_all
  have "compute_aer fl reference predicted = Inr (fl (1 - fl q))"
    using nz by (simp add: compute_aer_unfold q_def n_def d_def)
  with v show "\<exists>v. compute_aer fl reference predicted = Inr v \<and> 0 \<le> v \<and> v \<le> 1"
    by blast
qed

theorem metrics_bounds_witness:
  "mono (\<lambda>x::rat. x) \<and> (\<lambda>x::rat. x) 0 = 0 \<and> (\<lambda>x::rat. x) 1 = 1
   \<and> snd (compute_precision [\<lparr>sure = [(1::int, 1::int)], possible = [(5, 5)]\<rparr>] [[(1, 1), (2, 2), (3, 3)]])
     + snd (compute_recall [\<lparr>sure = [(1::int, 1::int)], possible = [(5, 5)]\<rparr>] [[(1, 1), (2, 2), (3, 3)]]) \<noteq> 0
   \<and> (\<exists>v. compute_aer (\<lambda>x. x) [\<lparr>sure = [(1::int, 1::int)], possible = [(5, 5)]\<rparr>]
         [[(1, 1), (2, 2), (3, 3)]] = Inr v \<and> 0 \<le> v \<and> v \<le> 1)"
proof -
  have nz: "snd (compute_precision [\<lparr>sure = [(1::int, 1::int)], possible = [(5, 5)]\<rparr>] [[(1, 1), (2, 2), (3, 3)]])
     + snd (compute_recall [\<lparr>sure = [(1::int, 1::int)], possible = [(5, 5)]\<rparr>] [[(1, 1), (2, 2), (3, 3)]]) \<noteq> 0"
    by (simp add: compute_precision_def compute_recall_def Let_def card_insert_if)
  have m: "mono (\<lambda>x::rat. x)" by (simp add: mono_def)
  show ?thesis
    using nz m metrics_bounds [of "[\<lparr>sure = [(1::int, 1::int)], possible = [(5, 5)]\<rparr>]"
        "[[(1, 1), (2, 2), (3, 3)]]" "\<lambda>x. x"]
    by simp
qed


section \<open>Properties of the corpus parser\<close>

lemma str_replace_single:
  "str_replace [a] new s = concat (map (\<lambda>c. if c = a then new else [c]) s)"
  by (induction s) simp_all

text \<open>
  Claim C8, amended. Before structural parsing, \<open>extract_sentences\<close> replaces every
  ampersand of the raw corpus text by \<^verbatim>\<open>&amp;\<close>, whether or not it already starts a markup
  escape, and leaves every other character as it is.
\<close>
theorem escape_ampersands_every:
  "escape_ampersands all_text =
     concat (map (\<lambda>c. if c = CHR ''&'' then ''&amp;'' else [c]) all_text)"
  unfolding escape_ampersands_def by (rule str_replace_single)

text \<open>
  Claim C8 as stated says that an ampersand which already starts a markup escape is left
  unchanged. On the text \<^verbatim>\<open>&amp;\<close>, whose only ampersand starts the escape \<^verbatim>\<open>&amp;\<close>, the
  normalisation returns \<^verbatim>\<open>&amp;amp;\<close>: the ampersand was escaped again.
\<close>
theorem escape_ampersands_counterexample:
  "escape_ampersands ''&amp;'' = ''&amp;amp;'' \<and> escape_ampersands ''&amp;'' \<noteq> ''&amp;''"
  by (simp add: escape_ampersands_def)

lemma py_int_error: "py_int m s = Inl e \<Longrightarrow> \<exists>ve. e = ValueError ve"
  by (auto simp: py_int_def Let_def split: if_splits option.splits prod.splits)

lemma py_int_message:
  "py_int m s = Inl (ValueError ve) \<Longrightarrow>
     ve = InvalidLiteral s \<or> (\<exists>digits. ve = ExceedsDigitLimit m digits)"
  by (auto simp: py_int_def Let_def split: if_splits option.splits prod.splits)

lemma rejected_Nil: "rejected m [] = []"
  by (simp add: rejected_def)

lemma rejected_Cons:
  "rejected m (p # ps) = (case py_int m p of Inl e \<Rightarrow> [e] | Inr v \<Rightarrow> []) @ rejected m ps"
  by (simp add: rejected_def)

lemma rejected_append: "rejected m (xs @ ys) = rejected m xs @ rejected m ys"
  by (simp add: rejected_def)

lemma rejected_first:
  "rejected m ps \<noteq> [] \<Longrightarrow>
     \<exists>ok piece more. ps = ok @ piece # more \<and> (\<forall>q\<in>set ok. \<not> isl (py_int m q)) \<and>
        py_int m piece = Inl (hd (rejected m ps))"
proof (induction ps)
  case Nil
  then show ?case by (simp add: rejected_Nil)
next
  case (Cons p ps)
  show ?case
  proof (cases "py_int m p")
    case (Inl e)
    then have "p # ps = [] @ p # ps \<and> (\<forall>q\<in>set []. \<not> isl (py_int m q)) \<and>
        py_int m p = Inl (hd (rejected m (p # ps)))"
      by (simp add: rejected_Cons)
    then show ?thesis by blast
  next
    case (Inr v)
    then have r: "rejected m (p # ps) = rejected m ps" by (simp add: rejected_Cons)
    with Cons.prems have "rejected m ps \<noteq> []" by simp
    from Cons.IH [OF this] obtain ok piece more where
      "ps = ok @ piece # more" "\<forall>q\<in>set ok. \<not> isl (py_int m q)"
      "py_int m piece = Inl (hd (rejected m ps))"
      by blast
    with Inr r have "p # ps = (p # ok) @ piece # more \<and>
        (\<forall>q\<in>set (p # ok). \<not> isl (py_int m q)) \<and>
        py_int m piece = Inl (hd (rejected m (p # ps)))"
      by simp
    then show ?thesis by blast
  qed
qed

lemma map_int_ok: "rejected m pieces = [] \<Longrightarrow> \<exists>vs. map_int m pieces = Inr vs"
proof (induction pieces)
  case Nil
  then show ?case by simp
next
  case (Cons p ps)
  from Cons.prems obtain v where v: "py_int m p = Inr v" and "rejected m ps = []"
    by (cases "py_int m p") (simp_all add: rejected_Cons)
  with Cons.IH obtain vs where "map_int m ps = Inr vs" by blast
  with v show ?case by simp
qed

lemma map_int_fail:
  "rejected m pieces \<noteq> [] \<Longrightarrow> map_int m pieces = Inl (hd (rejected m pieces))"
proof (induction pieces)
  case Nil
  then show ?case by (simp add: rejected_Nil)
next
  case (Cons p ps)
  show ?case
  proof (cases "py_int m p")
    case (Inl e)
    then show ?thesis by (simp add: rejected_Cons)
  next
    case (Inr v)
    then have r: "rejected m (p # ps) = rejected m ps" by (simp add: rejected_Cons)
    with Cons.prems have "rejected m ps \<noteq> []" by simp
    then have "map_int m ps = Inl (hd (rejected m ps))" by (rule Cons.IH)
    with Inr r show ?thesis by simp
  qed
qed

lemma convert_items_ok:
  "rejected m (concat (map (str_split CHR ''-'') items)) = [] \<Longrightarrow>
     \<exists>tups. convert_items m items = Inr tups"
proof (induction items)
  case Nil
  then show ?case by simp
next
  case (Cons it its)
  from Cons.prems have 1: "rejected m (str_split CHR ''-'' it) = []"
    and 2: "rejected m (concat (map (str_split CHR ''-'') its)) = []"
    by (simp_all add: rejected_append)
  from map_int_ok [OF 1] obtain tup where "map_int m (str_split CHR ''-'' it) = Inr tup" by blast
  moreover from Cons.IH [OF 2] obtain tups where "convert_items m its = Inr tups" by blast
  ultimately show ?case by simp
qed

lemma convert_items_fail:
  "rejected m (concat (map (str_split CHR ''-'') items)) \<noteq> [] \<Longrightarrow>
     convert_items m items = Inl (hd (rejected m (concat (map (str_split CHR ''-'') items))))"
proof (induction items)
  case Nil
  then show ?case by (simp add: rejected_Nil)
next
  case (Cons it its)
  show ?case
  proof (cases "rejected m (str_split CHR ''-'' it) = []")
    case True
    then have r: "rejected m (concat (map (str_split CHR ''-'') (it # its))) =
        rejected m (concat (map (str_split CHR ''-'') its))"
      by (simp add: rejected_append)
    with Cons.prems have "rejected m (concat (map (str_split CHR ''-'') its)) \<noteq> []" by simp
    then have "convert_items m its =
        Inl (hd (rejected m (concat (map (str_split CHR ''-'') its))))"
      by (rule Cons.IH)
    moreover from map_int_ok [OF True] obtain tup where
      "map_int m (str_split CHR ''-'' it) = Inr tup" by blast
    ultimately show ?thesis unfolding r by simp
  next
    case False
    then have "hd (rejected m (concat (map (str_split CHR ''-'') (it # its)))) =
        hd (rejected m (str_split CHR ''-'' it))"
      by (simp add: rejected_append)
    with map_int_fail [OF False] show ?thesis by simp
  qed
qed

lemma extract_loop_short_block:
  "length block < 4 \<Longrightarrow> extract_loop m (block # blocks) acc = Inl IndexError"
  by (cases acc) (auto simp: child_text_def split: sum.splits)

lemma four_fields:
  "4 \<le> length block \<Longrightarrow>
     child_text block 0 = Inr (block ! 0) \<and> child_text block (Suc 0) = Inr (block ! 1) \<and>
     child_text block 2 = Inr (block ! 2) \<and> child_text block 3 = Inr (block ! 3)"
  by (auto simp: child_text_def)

lemma alignment_pieces_split:
  "rejected m (alignment_pieces block) =
     rejected m (concat (map (str_split CHR ''-'') (split_text (block ! 2)))) @
     rejected m (concat (map (str_split CHR ''-'') (split_text (block ! 3))))"
  by (simp add: alignment_pieces_def rejected_append)

lemma extract_loop_rejected:
  assumes "4 \<le> length block" and "rejected m (alignment_pieces block) \<noteq> []"
  shows "extract_loop m (block # blocks) acc = Inl (hd (rejected m (alignment_pieces block)))"
proof -
  obtain sps las where acc: "acc = (sps, las)" by (cases acc)
  note f = four_fields [OF assms(1)]
  show ?thesis
  proof (cases "rejected m (concat (map (str_split CHR ''-'') (split_text (block ! 2)))) = []")
    case True
    with assms(2)
    have p: "rejected m (concat (map (str_split CHR ''-'') (split_text (block ! 3)))) \<noteq> []"
      by (simp add: alignment_pieces_split)
    from convert_items_ok [OF True] obtain tups where
      "convert_items m (split_text (block ! 2)) = Inr tups" by blast
    moreover note convert_items_fail [OF p]
    moreover have "hd (rejected m (alignment_pieces block)) =
        hd (rejected m (concat (map (str_split CHR ''-'') (split_text (block ! 3)))))"
      using True by (simp add: alignment_pieces_split)
    ultimately show ?thesis by (simp add: acc f)
  next
    case False
    then have "hd (rejected m (alignment_pieces block)) =
        hd (rejected m (concat (map (str_split CHR ''-'') (split_text (block ! 2)))))"
      by (simp add: alignment_pieces_split)
    with convert_items_fail [OF False] show ?thesis by (simp add: acc f)
  qed
qed

lemma extract_loop_well_formed:
  assumes "\<not> malformed_block m block"
  shows "\<exists>acc'. extract_loop m (block # blocks) acc = extract_loop m blocks acc'"
proof -
  obtain sps las where acc: "acc = (sps, las)" by (cases acc)
  from assms have len: "4 \<le> length block" and r: "rejected m (alignment_pieces block) = []"
    by (simp_all add: malformed_block_def)
  note f = four_fields [OF len]
  from r have "rejected m (concat (map (str_split CHR ''-'') (split_text (block ! 2)))) = []"
    and "rejected m (concat (map (str_split CHR ''-'') (split_text (block ! 3)))) = []"
    by (simp_all add: alignment_pieces_split)
  then obtain s p where "convert_items m (split_text (block ! 2)) = Inr s"
    and "convert_items m (split_text (block ! 3)) = Inr p"
    using convert_items_ok by blast
  then have "extract_loop m (block # blocks) acc =
      extract_loop m blocks
        (sps @ [\<lparr>source = split_text (block ! 0), target = split_text (block ! 1)\<rparr>],
         las @ [\<lparr>sure = s, possible = p\<rparr>])"
    by (simp add: acc f)
  then show ?thesis by blast
qed

lemma extract_loop_first_malformed:
  assumes "\<forall>b\<in>set good. \<not> malformed_block m b" and "malformed_block m first"
  shows "extract_loop m (good @ first # rest) acc =
           Inl (if length first < 4 then IndexError else hd (rejected m (alignment_pieces first)))"
  using assms(1)
proof (induction good arbitrary: acc)
  case Nil
  show ?case
  proof (cases "length first < 4")
    case True
    then show ?thesis by (simp add: extract_loop_short_block)
  next
    case False
    then have "4 \<le> length first" by simp
    moreover from False assms(2) have "rejected m (alignment_pieces first) \<noteq> []"
      by (simp add: malformed_block_def)
    ultimately show ?thesis using False by (simp add: extract_loop_rejected)
  qed
next
  case (Cons b good)
  then have "\<not> malformed_block m b" and g: "\<forall>b\<in>set good. \<not> malformed_block m b" by simp_all
  from extract_loop_well_formed [OF this(1)] obtain acc' where
    "extract_loop m (b # good @ first # rest) acc = extract_loop m (good @ first # rest) acc'"
    by blast
  with Cons.IH [OF g] show ?case by simp
qed

text \<open>
  Claim C9, amended. For every corpus that contains a malformed block, that is a block with
  fewer than 4 fields or a block whose sure or possible field has an item with a
  hyphen-separated piece that \<^verbatim>\<open>int\<close> rejects, \<open>extract_sentences\<close> aborts with a diagnosable
  error and returns nothing; no block is skipped or accepted in silence. The error is that
  of the first malformed block of the corpus: \<^verbatim>\<open>IndexError\<close> when that block has fewer than 4
  fields, and otherwise the \<^verbatim>\<open>ValueError\<close> that \<^verbatim>\<open>int\<close> raises on the first rejected piece of
  the block, whose message quotes the piece (or gives the digit limit that it exceeds).
\<close>
theorem extract_sentences_aborts:
  assumes "block \<in> set blocks" and "malformed_block max_str_digits block"
  shows "\<exists>good first rest.
           blocks = good @ first # rest
         \<and> (\<forall>b\<in>set good. \<not> malformed_block max_str_digits b)
         \<and> malformed_block max_str_digits first
         \<and> (length first < 4 \<longrightarrow> extract_sentences max_str_digits blocks = Inl IndexError)
         \<and> (4 \<le> length first \<longrightarrow>
              (\<exists>ok piece more ve.
                 alignment_pieces first = ok @ piece # more
               \<and> (\<forall>q\<in>set ok. \<not> isl (py_int max_str_digits q))
               \<and> py_int max_str_digits piece = Inl (ValueError ve)
               \<and> (ve = InvalidLiteral piece \<or>
                  (\<exists>digits. ve = ExceedsDigitLimit max_str_digits digits))
               \<and> extract_sentences max_str_digits blocks = Inl (ValueError ve)))"
proof -
  from assms have "\<exists>b\<in>set blocks. malformed_block max_str_digits b" by blast
  from split_list_first_prop [OF this] obtain good first rest where
    dec: "blocks = good @ first # rest" and mal: "malformed_block max_str_digits first"
    and good: "\<forall>b\<in>set good. \<not> malformed_block max_str_digits b"
    by blast
  have res: "extract_sentences max_str_digits blocks =
      Inl (if length first < 4 then IndexError
           else hd (rejected max_str_digits (alignment_pieces first)))"
    unfolding extract_sentences_def dec by (rule extract_loop_first_malformed [OF good mal])
  have short: "length first < 4 \<longrightarrow> extract_sentences max_str_digits blocks = Inl IndexError"
    using res by simp
  have long: "4 \<le> length first \<longrightarrow>
              (\<exists>ok piece more ve.
                 alignment_pieces first = ok @ piece # more
               \<and> (\<forall>q\<in>set ok. \<not> isl (py_int max_str_digits q))
               \<and> py_int max_str_digits piece = Inl (ValueError ve)
               \<and> (ve = InvalidLiteral piece \<or>
                  (\<exists>digits. ve = ExceedsDigitLimit max_str_digits digits))
               \<and> extract_sentences max_str_digits blocks = Inl (ValueError ve))"
  proof
    assume len: "4 \<le> length first"
    with mal have "rejected max_str_digits (alignment_pieces first) \<noteq> []"
      by (simp add: malformed_block_def)
    from rejected_first [OF this] obtain ok piece more where
      p: "alignment_pieces first = ok @ piece # more"
        "\<forall>q\<in>set ok. \<not> isl (py_int max_str_digits q)"
        "py_int max_str_digits piece =
           Inl (hd (rejected max_str_digits (alignment_pieces first)))"
      by blast
    from py_int_error [OF p(3)] obtain ve where
      ve: "hd (rejected max_str_digits (alignment_pieces first)) = ValueError ve" by blast
    from len res have "extract_sentences max_str_digits blocks = Inl (ValueError ve)"
      by (simp add: ve)
    moreover from p(3) have pv: "py_int max_str_digits piece = Inl (ValueError ve)"
      by (simp add: ve)
    moreover note py_int_message [OF pv]
    ultimately show "\<exists>ok piece more ve.
                 alignment_pieces first = ok @ piece # more
               \<and> (\<forall>q\<in>set ok. \<not> isl (py_int max_str_digits q))
               \<and> py_int max_str_digits piece = Inl (ValueError ve)
               \<and> (ve = InvalidLiteral piece \<or>
                  (\<exists>digits. ve = ExceedsDigitLimit max_str_digits digits))
               \<and> extract_sentences max_str_digits blocks = Inl (ValueError ve)"
      using p(1,2) by blast
  qed
  from dec good mal short long show ?thesis by blast
qed

text \<open>
  Claim C9 as stated says that an alignment item that does not consist of exactly two
  hyphen-separated integers aborts the parse. The item \<^verbatim>\<open>1-2-3\<close> is not such a pair, and
  a corpus whose only block carries it in the sure field is parsed without an error: the
  sure list holds the triple \<open>(1, 2, 3)\<close>.
\<close>
theorem extract_sentences_counterexample:
  "\<not> well_formed_pair 4300 ''1-2-3'' \<and>
   extract_sentences 4300 [[Some ''a b'', Some ''c'', Some ''1-2-3'', None]] =
     Inr ([\<lparr>source = [''a'', ''b''], target = [''c'']\<rparr>],
          [\<lparr>sure = [[1, 2, 3]], possible = []\<rparr>])"
  by (simp add: well_formed_pair_def extract_sentences_def child_text_def split_text_def
      py_int_def is_space_def is_digit_def digit_value_def)


theorem extract_sentences_aborts_witness:
  "[Some ''a''] \<in> set [[Some ''a'', Some ''c'', Some ''1-1 2-x'', None], [Some ''a'']]
   \<and> malformed_block 4300 [Some ''a'']
   \<and> extract_sentences 4300 [[Some ''a'', Some ''c'', Some ''1-1 2-x'', None], [Some ''a'']] =
       Inl (ValueError (InvalidLiteral ''x''))
   \<and> [Some ''a b'', Some ''c'', Some ''1-1''] \<in>
       set [[Some ''a'', Some ''c'', Some ''1-1'', Some ''1-1 1-2''],
            [Some ''a b'', Some ''c'', Some ''1-1''],
            [Some ''a'', Some ''c'', Some ''y'', None]]
   \<and> malformed_block 4300 [Some ''a b'', Some ''c'', Some ''1-1'']
   \<and> extract_sentences 4300
         [[Some ''a'', Some ''c'', Some ''1-1'', Some ''1-1 1-2''],
          [Some ''a b'', Some ''c'', Some ''1-1''],
          [Some ''a'', Some ''c'', Some ''y'', None]] = Inl IndexError"
proof -
  have m1: "[Some ''a''] \<in> set [[Some ''a'', Some ''c'', Some ''1-1 2-x'', None], [Some ''a'']]"
    by simp
  have h1: "malformed_block 4300 [Some ''a'']"
    by (simp add: malformed_block_def)
  have r1: "extract_sentences 4300 [[Some ''a'', Some ''c'', Some ''1-1 2-x'', None], [Some ''a'']] =
       Inl (ValueError (InvalidLiteral ''x''))"
    by (simp add: extract_sentences_def child_text_def split_text_def
        py_int_def is_space_def is_digit_def digit_value_def)
  have m2: "[Some ''a b'', Some ''c'', Some ''1-1''] \<in>
       set [[Some ''a'', Some ''c'', Some ''1-1'', Some ''1-1 1-2''],
            [Some ''a b'', Some ''c'', Some ''1-1''],
            [Some ''a'', Some ''c'', Some ''y'', None]]"
    by simp
  have h2: "malformed_block 4300 [Some ''a b'', Some ''c'', Some ''1-1'']"
    by (simp add: malformed_block_def)
  have r2: "extract_sentences 4300
         [[Some ''a'', Some ''c'', Some ''1-1'', Some ''1-1 1-2''],
          [Some ''a b'', Some ''c'', Some ''1-1''],
          [Some ''a'', Some ''c'', Some ''y'', None]] = Inl IndexError"
    by (simp add: extract_sentences_def child_text_def split_text_def
        py_int_def is_space_def is_digit_def digit_value_def)
  from extract_sentences_aborts [OF m1 h1] extract_sentences_aborts [OF m2 h2]
    m1 h1 r1 m2 h2 r2
  show ?thesis by blast
qed

section \<open>Properties of the vocabulary builder\<close>

subsection \<open>Unique, contiguous indices\<close>

lemma vocab_inv_empty: "vocab_inv Map.empty"
  by (simp add: vocab_inv_def)

lemma vocab_inv_update:
  assumes "vocab_inv d" and "d w = None"
  shows "vocab_inv (d(w \<mapsto> int (card (dom d))))"
proof -
  from assms(1) have fin: "finite (dom d)" and inj: "inj_on d (dom d)"
    and ran: "ran d = {0..<int (card (dom d))}"
    by (simp_all add: vocab_inv_def)
  from assms(2) have notin: "w \<notin> dom d" by (simp add: domIff)
  let ?c = "int (card (dom d))"
  let ?d = "d(w \<mapsto> ?c)"
  have dom': "dom ?d = insert w (dom d)" by simp
  have card': "card (dom ?d) = Suc (card (dom d))"
    using fin notin by simp
  have ran': "ran ?d = insert ?c (ran d)"
    using assms(2) by simp
  have "ran ?d = {0..<int (card (dom ?d))}"
    unfolding ran' ran card' by auto
  moreover have "inj_on ?d (dom ?d)"
  proof (rule inj_onI)
    fix x y
    assume x: "x \<in> dom ?d" and y: "y \<in> dom ?d" and eq: "?d x = ?d y"
    have fresh: "d z \<noteq> Some ?c" if "z \<in> dom d" for z
    proof
      assume "d z = Some ?c"
      then have "?c \<in> ran d" by (auto simp: ran_def)
      with ran show False by simp
    qed
    show "x = y"
    proof (cases "x = w")
      case True
      show ?thesis
      proof (cases "y = w")
        case True
        with \<open>x = w\<close> show ?thesis by simp
      next
        case False
        with y have "y \<in> dom d" by simp
        from fresh [OF this] eq True False show ?thesis by simp
      qed
    next
      case False
      with x have xd: "x \<in> dom d" by simp
      show ?thesis
      proof (cases "y = w")
        case True
        from fresh [OF xd] eq True False show ?thesis by simp
      next
        case yw: False
        with y have "y \<in> dom d" by simp
        with xd eq False yw inj show ?thesis by (simp add: inj_on_def)
      qed
    qed
  qed
  moreover have "finite (dom ?d)" using fin by simp
  ultimately show ?thesis by (simp add: vocab_inv_def)
qed

lemma vocab_inv_range:
  assumes "vocab_inv d" and "d w = Some i"
  shows "0 \<le> i \<and> i < int (card (dom d))"
proof -
  from assms(2) have "i \<in> ran d" by (auto simp: ran_def)
  with assms(1) show ?thesis by (simp add: vocab_inv_def)
qed

subsection \<open>The unbounded mode\<close>

lemma index_words_append:
  "index_words (xs @ ys) (d, c) = index_words ys (index_words xs (d, c))"
  by (induction xs arbitrary: d c) auto

lemma index_pairs_concat:
  "index_pairs sps (src, tgt) =
     (index_words (concat (map source sps)) src, index_words (concat (map target sps)) tgt)"
proof (induction sps arbitrary: src tgt)
  case Nil
  show ?case by (cases src; cases tgt) simp
next
  case (Cons sp sps)
  show ?case
    by (cases src; cases tgt) (simp add: Cons.IH index_words_append)
qed

lemma index_words_vocab_inv:
  assumes "vocab_inv d" and "c = int (card (dom d))"
  shows "vocab_inv (fst (index_words ws (d, c))) \<and>
         snd (index_words ws (d, c)) = int (card (dom (fst (index_words ws (d, c)))))"
  using assms
proof (induction ws arbitrary: d c)
  case Nil
  then show ?case by simp
next
  case (Cons w ws)
  show ?case
  proof (cases "d w")
    case None
    have inv: "vocab_inv (d(w \<mapsto> c))"
      using vocab_inv_update [OF Cons.prems(1) None] Cons.prems(2) by simp
    have fin: "finite (dom d)" using Cons.prems(1) by (simp add: vocab_inv_def)
    have "w \<notin> dom d" using None by (simp add: domIff)
    then have c: "c + 1 = int (card (dom (d(w \<mapsto> c))))"
      using fin Cons.prems(2) by simp
    have step: "index_words (w # ws) (d, c) = index_words ws (d(w \<mapsto> c), c + 1)"
      using None by simp
    from Cons.IH [OF inv c] show ?thesis unfolding step .
  next
    case (Some i)
    then have step: "index_words (w # ws) (d, c) = index_words ws (d, c)" by simp
    from Cons.IH [OF Cons.prems] show ?thesis unfolding step .
  qed
qed

text \<open>
  First-occurrence order: after the words \<open>seen\<close> have been scanned, a word whose first
  occurrence is at position \<open>i\<close> has the number of distinct words before it as its index.
\<close>

lemma index_words_first_occurrence:
  assumes "dom d = set seen"
    and "c = int (card (set seen))"
    and "\<forall>i<length seen. seen ! i \<notin> set (take i seen) \<longrightarrow>
            d (seen ! i) = Some (int (card (set (take i seen))))"
  shows "dom (fst (index_words ws (d, c))) = set (seen @ ws) \<and>
         (\<forall>i<length (seen @ ws). (seen @ ws) ! i \<notin> set (take i (seen @ ws)) \<longrightarrow>
            fst (index_words ws (d, c)) ((seen @ ws) ! i) =
              Some (int (card (set (take i (seen @ ws))))))"
  using assms
proof (induction ws arbitrary: d c seen)
  case Nil
  then show ?case by simp
next
  case (Cons w ws)
  let ?seen = "seen @ [w]"
  have app: "?seen @ ws = seen @ w # ws" by simp
  show ?case
  proof (cases "d w")
    case None
    then have notin: "w \<notin> set seen" using Cons.prems(1) by (auto simp: domIff)
    have 1: "dom (d(w \<mapsto> c)) = set ?seen" using Cons.prems(1) by simp
    have 2: "c + 1 = int (card (set ?seen))" using Cons.prems(2) notin by simp
    have 3: "\<forall>i<length ?seen. ?seen ! i \<notin> set (take i ?seen) \<longrightarrow>
            (d(w \<mapsto> c)) (?seen ! i) = Some (int (card (set (take i ?seen))))"
    proof (intro allI impI)
      fix i
      assume i: "i < length ?seen" and first: "?seen ! i \<notin> set (take i ?seen)"
      show "(d(w \<mapsto> c)) (?seen ! i) = Some (int (card (set (take i ?seen))))"
      proof (cases "i < length seen")
        case True
        then have nth: "?seen ! i = seen ! i" by (simp add: nth_append)
        from True have tk: "take i ?seen = take i seen" by simp
        from True notin have "seen ! i \<noteq> w" by (metis nth_mem)
        with Cons.prems(3) True first show ?thesis
          unfolding nth tk by simp
      next
        case False
        with i have "i = length seen" by simp
        then show ?thesis using Cons.prems(2) by simp
      qed
    qed
    have step: "index_words (w # ws) (d, c) = index_words ws (d(w \<mapsto> c), c + 1)"
      using None by simp
    from Cons.IH [OF 1 2 3] show ?thesis unfolding step app .
  next
    case (Some j)
    then have mem: "w \<in> set seen" using Cons.prems(1) by (auto simp: domIff)
    have 1: "dom d = set ?seen" using Cons.prems(1) mem by auto
    have 2: "c = int (card (set ?seen))" using Cons.prems(2) mem by (simp add: insert_absorb)
    have 3: "\<forall>i<length ?seen. ?seen ! i \<notin> set (take i ?seen) \<longrightarrow>
            d (?seen ! i) = Some (int (card (set (take i ?seen))))"
    proof (intro allI impI)
      fix i
      assume i: "i < length ?seen" and first: "?seen ! i \<notin> set (take i ?seen)"
      show "d (?seen ! i) = Some (int (card (set (take i ?seen))))"
      proof (cases "i < length seen")
        case True
        then have nth: "?seen ! i = seen ! i" by (simp add: nth_append)
        from True have tk: "take i ?seen = take i seen" by simp
        from Cons.prems(3) True first show ?thesis
          unfolding nth tk by simp
      next
        case False
        with i have "i = length seen" by simp
        with first mem show ?thesis by simp
      qed
    qed
    have step: "index_words (w # ws) (d, c) = index_words ws (d, c)"
      using Some by simp
    from Cons.IH [OF 1 2 3] show ?thesis unfolding step app .
  qed
qed

lemma get_token_to_index_unbounded:
  "get_token_to_index sps None =
     (fst (index_words (concat (map source sps)) (Map.empty, 0)),
      fst (index_words (concat (map target sps)) (Map.empty, 0)))"
  by (simp add: get_token_to_index_def index_pairs_concat)

lemma index_words_empty_vocab_inv: "vocab_inv (fst (index_words ws (Map.empty, 0)))"
  using index_words_vocab_inv [OF vocab_inv_empty, of 0 ws] by simp

lemma index_words_empty_first_occurrence:
  "dom (fst (index_words ws (Map.empty, 0))) = set ws \<and>
   (\<forall>i<length ws. ws ! i \<notin> set (take i ws) \<longrightarrow>
      fst (index_words ws (Map.empty, 0)) (ws ! i) = Some (int (card (set (take i ws)))))"
  using index_words_first_occurrence [of Map.empty "[]" 0 ws] by simp

subsection \<open>Counters\<close>

lemma counter_add_item_keys:
  "map fst (counter_add_item c elem n) =
     (if elem \<in> set (map fst c) then map fst c else map fst c @ [elem])"
  by (induction c elem n rule: counter_add_item.induct) auto

lemma counter_add_item_positive:
  "list_all (\<lambda>item. 0 < snd item) c \<Longrightarrow> 0 < n \<Longrightarrow>
     list_all (\<lambda>item. 0 < snd item) (counter_add_item c elem n)"
  by (induction c elem n rule: counter_add_item.induct) auto

lemma counter_add_item_inv:
  "counter_inv c \<Longrightarrow> 0 < n \<Longrightarrow> counter_inv (counter_add_item c elem n)"
  by (simp add: counter_inv_def counter_add_item_keys counter_add_item_positive)

lemma counter_add_item_key_set:
  "set (map fst (counter_add_item c elem n)) = insert elem (set (map fst c))"
  by (auto simp: counter_add_item_keys)

lemma count_elements:
  "counter_inv c \<Longrightarrow>
     counter_inv (foldl (\<lambda>c elem. counter_add_item c elem 1) c ws) \<and>
     set (map fst (foldl (\<lambda>c elem. counter_add_item c elem 1) c ws)) = set (map fst c) \<union> set ws"
proof (induction ws arbitrary: c)
  case Nil
  then show ?case by simp
next
  case (Cons w ws)
  have "counter_inv (counter_add_item c w 1)"
    using Cons.prems by (simp add: counter_add_item_inv)
  from Cons.IH [OF this] show ?case
    by (simp add: counter_add_item_key_set del: set_map)
qed

lemma Counter_inv: "counter_inv (Counter ws)"
  and Counter_keys: "set (map fst (Counter ws)) = set ws"
  using count_elements [of "[]" ws] by (simp_all add: Counter_def counter_inv_def)

lemma add_items:
  "counter_inv c \<Longrightarrow> list_all (\<lambda>item. 0 < snd item) other \<Longrightarrow>
     counter_inv (foldl (\<lambda>c item. counter_add_item c (fst item) (snd item)) c other) \<and>
     set (map fst (foldl (\<lambda>c item. counter_add_item c (fst item) (snd item)) c other)) =
       set (map fst c) \<union> set (map fst other)"
proof (induction other arbitrary: c)
  case Nil
  then show ?case by simp
next
  case (Cons item other)
  have "counter_inv (counter_add_item c (fst item) (snd item))"
    using Cons.prems by (simp add: counter_add_item_inv)
  moreover have "list_all (\<lambda>item. 0 < snd item) other" using Cons.prems by simp
  ultimately show ?case
    using Cons.IH by (simp add: counter_add_item_key_set del: set_map)
qed

lemma keep_positive_id: "counter_inv c \<Longrightarrow> keep_positive c = c"
  by (simp add: counter_inv_def keep_positive_def list_all_iff)

lemma counter_iadd_inv:
  assumes "counter_inv self" and "counter_inv other"
  shows "counter_inv (counter_iadd self other) \<and>
         set (map fst (counter_iadd self other)) = set (map fst self) \<union> set (map fst other)"
proof -
  from assms(2) have "list_all (\<lambda>item. 0 < snd item) other" by (simp add: counter_inv_def)
  from add_items [OF assms(1) this] show ?thesis
    by (simp add: counter_iadd_def keep_positive_id del: set_map)
qed

lemma count_pairs_inv:
  assumes "counter_inv cs" and "counter_inv ct"
  shows "counter_inv (fst (count_pairs sps (cs, ct))) \<and>
         counter_inv (snd (count_pairs sps (cs, ct))) \<and>
         set (map fst (fst (count_pairs sps (cs, ct)))) =
           set (map fst cs) \<union> set (concat (map source sps)) \<and>
         set (map fst (snd (count_pairs sps (cs, ct)))) =
           set (map fst ct) \<union> set (concat (map target sps))"
  using assms
proof (induction sps arbitrary: cs ct)
  case Nil
  then show ?case by simp
next
  case (Cons sp sps)
  have s: "counter_inv (counter_iadd cs (Counter (source sp)))"
      "set (map fst (counter_iadd cs (Counter (source sp)))) = set (map fst cs) \<union> set (source sp)"
    using counter_iadd_inv [OF Cons.prems(1) Counter_inv, of "source sp"]
    by (simp_all add: Counter_keys del: set_map)
  have t: "counter_inv (counter_iadd ct (Counter (target sp)))"
      "set (map fst (counter_iadd ct (Counter (target sp)))) = set (map fst ct) \<union> set (target sp)"
    using counter_iadd_inv [OF Cons.prems(2) Counter_inv, of "target sp"]
    by (simp_all add: Counter_keys del: set_map)
  from Cons.IH [OF s(1) t(1)] show ?case
    unfolding count_pairs.simps s(2) t(2) by (simp add: Un_assoc del: set_map)
qed

lemma most_common_keys:
  "set (map fst (most_common c)) = set (map fst c)"
  "distinct (map fst (most_common c)) = distinct (map fst c)"
  "length (most_common c) = length c"
  by (simp_all add: most_common_def distinct_map)

subsection \<open>Assigning the indices\<close>

lemma assign_indices_inv:
  assumes "distinct (map fst xs)" and "set (map fst xs) \<inter> dom d = {}"
    and "vocab_inv d" and "i = int (card (dom d))"
  shows "vocab_inv (assign_indices xs i k d) \<and>
         dom (assign_indices xs i k d) = dom d \<union> set (take (nat (k - i)) (map fst xs))"
  using assms
proof (induction xs arbitrary: i d)
  case Nil
  then show ?case by simp
next
  case (Cons x xs)
  show ?case
  proof (cases "i \<ge> k")
    case True
    then show ?thesis using Cons.prems(3) by simp
  next
    case False
    let ?d = "d(fst x \<mapsto> i)"
    have none: "d (fst x) = None" using Cons.prems(2) by (auto simp: domIff)
    have fin: "finite (dom d)" using Cons.prems(3) by (simp add: vocab_inv_def)
    have 1: "distinct (map fst xs)" using Cons.prems(1) by simp
    have 2: "set (map fst xs) \<inter> dom ?d = {}" using Cons.prems(1,2) by auto
    have 3: "vocab_inv ?d" using vocab_inv_update [OF Cons.prems(3) none] Cons.prems(4) by simp
    have 4: "i + 1 = int (card (dom ?d))"
      using fin none Cons.prems(4) by (simp add: domIff)
    have step: "assign_indices (x # xs) i k d = assign_indices xs (i + 1) k ?d"
      using False by simp
    have n: "nat (k - i) = Suc (nat (k - (i + 1)))" using False by simp
    have eq: "dom ?d \<union> set (take (nat (k - (i + 1))) (map fst xs)) =
          dom d \<union> set (take (nat (k - i)) (map fst (x # xs)))"
      unfolding n by simp
    from Cons.IH [OF 1 2 3 4] show ?thesis unfolding step eq .
  qed
qed

lemma assign_indices_empty:
  assumes "distinct (map fst xs)"
  shows "vocab_inv (assign_indices xs 0 k Map.empty)"
    and "dom (assign_indices xs 0 k Map.empty) = set (take (nat k) (map fst xs))"
    and "card (dom (assign_indices xs 0 k Map.empty)) = min (nat k) (length xs)"
proof -
  have *: "vocab_inv (assign_indices xs 0 k Map.empty) \<and>
        dom (assign_indices xs 0 k Map.empty) = dom (Map.empty :: string \<rightharpoonup> int) \<union> set (take (nat (k - 0)) (map fst xs))"
    by (rule assign_indices_inv [OF assms _ vocab_inv_empty]) simp_all
  then show "vocab_inv (assign_indices xs 0 k Map.empty)" by simp
  from * show d: "dom (assign_indices xs 0 k Map.empty) = set (take (nat k) (map fst xs))"
    by simp
  have "distinct (take (nat k) (map fst xs))" using assms by simp
  then have "card (set (take (nat k) (map fst xs))) = length (take (nat k) (map fst xs))"
    by (rule distinct_card)
  then show "card (dom (assign_indices xs 0 k Map.empty)) = min (nat k) (length xs)"
    unfolding d by (simp add: min.commute)
qed

lemma get_token_to_index_bounded:
  "get_token_to_index sps (Some k) =
     (assign_indices (most_common (fst (count_pairs sps ([], [])))) 0 k Map.empty,
      assign_indices (most_common (snd (count_pairs sps ([], [])))) 0 k Map.empty)"
  by (simp add: get_token_to_index_def Let_def split: prod.splits)

lemma counted_keys:
  "distinct (map fst (most_common (fst (count_pairs sps ([], [])))))"
  "distinct (map fst (most_common (snd (count_pairs sps ([], [])))))"
  "set (map fst (most_common (fst (count_pairs sps ([], []))))) = set (concat (map source sps))"
  "set (map fst (most_common (snd (count_pairs sps ([], []))))) = set (concat (map target sps))"
  "length (most_common (fst (count_pairs sps ([], [])))) = card (set (concat (map source sps)))"
  "length (most_common (snd (count_pairs sps ([], [])))) = card (set (concat (map target sps)))"
proof -
  have e: "counter_inv []" by (simp add: counter_inv_def)
  note inv = count_pairs_inv [OF e e, of sps]
  from inv show 1: "distinct (map fst (most_common (fst (count_pairs sps ([], [])))))"
    by (simp add: most_common_keys(2) counter_inv_def)
  from inv show 2: "distinct (map fst (most_common (snd (count_pairs sps ([], [])))))"
    by (simp add: most_common_keys(2) counter_inv_def)
  from inv show 3: "set (map fst (most_common (fst (count_pairs sps ([], []))))) = set (concat (map source sps))"
    unfolding most_common_keys(1) by simp
  from inv show 4: "set (map fst (most_common (snd (count_pairs sps ([], []))))) = set (concat (map target sps))"
    unfolding most_common_keys(1) by simp
  from distinct_card [OF 1] 3
  show "length (most_common (fst (count_pairs sps ([], [])))) = card (set (concat (map source sps)))"
    by simp
  from distinct_card [OF 2] 4
  show "length (most_common (snd (count_pairs sps ([], [])))) = card (set (concat (map target sps)))"
    by simp
qed

lemma get_token_to_index_vocab_inv:
  assumes "get_token_to_index sentence_pairs freq_cutoff = (source_dict, target_dict)"
  shows "vocab_inv source_dict \<and> vocab_inv target_dict"
proof (cases freq_cutoff)
  case None
  with assms
  have "source_dict = fst (index_words (concat (map source sentence_pairs)) (Map.empty, 0))"
    and "target_dict = fst (index_words (concat (map target sentence_pairs)) (Map.empty, 0))"
    by (simp_all add: get_token_to_index_unbounded)
  then show ?thesis by (simp add: index_words_empty_vocab_inv)
next
  case (Some k)
  with assms
  have "source_dict =
      assign_indices (most_common (fst (count_pairs sentence_pairs ([], [])))) 0 k Map.empty"
    and "target_dict =
      assign_indices (most_common (snd (count_pairs sentence_pairs ([], [])))) 0 k Map.empty"
    by (simp_all add: get_token_to_index_bounded)
  then show ?thesis
    using assign_indices_empty(1) [OF counted_keys(1)] assign_indices_empty(1) [OF counted_keys(2)]
    by simp
qed

section \<open>Claims about the vocabulary builder and the tokenizer\<close>

text \<open>
  Claim C7. In both modes the two dictionaries returned by \<open>get_token_to_index\<close> have
  unique indices that are contiguous from 0: no two tokens share an index and the indices
  are exactly \<open>0, ..., n - 1\<close> for a dictionary of \<open>n\<close> tokens. Without a cutoff, the
  tokens of a dictionary are the tokens of its side of the corpus, and a token first met at
  position \<open>i\<close> of the scan (the sentences of that side in order, each left to right) has
  as index the number of distinct tokens met before it, the next unused index. With a cutoff
  \<open>K\<close>, a dictionary has \<open>min K n\<close> of the \<open>n\<close> distinct tokens of its side (none for
  \<open>K \<le> 0\<close>), its indices lie in \<open>0, ..., K - 1\<close>, and every other token is absent.
\<close>
theorem get_token_to_index_spec:
  assumes "get_token_to_index sentence_pairs freq_cutoff = (source_dict, target_dict)"
  shows "inj_on source_dict (dom source_dict)
       \<and> ran source_dict = {0..<int (card (dom source_dict))}
       \<and> inj_on target_dict (dom target_dict)
       \<and> ran target_dict = {0..<int (card (dom target_dict))}
       \<and> (freq_cutoff = None \<longrightarrow>
            dom source_dict = set (concat (map source sentence_pairs))
          \<and> (\<forall>i<length (concat (map source sentence_pairs)).
                concat (map source sentence_pairs) ! i
                  \<notin> set (take i (concat (map source sentence_pairs))) \<longrightarrow>
                source_dict (concat (map source sentence_pairs) ! i) =
                  Some (int (card (set (take i (concat (map source sentence_pairs)))))))
          \<and> dom target_dict = set (concat (map target sentence_pairs))
          \<and> (\<forall>i<length (concat (map target sentence_pairs)).
                concat (map target sentence_pairs) ! i
                  \<notin> set (take i (concat (map target sentence_pairs))) \<longrightarrow>
                target_dict (concat (map target sentence_pairs) ! i) =
                  Some (int (card (set (take i (concat (map target sentence_pairs))))))))
       \<and> (\<forall>k. freq_cutoff = Some k \<longrightarrow>
            card (dom source_dict) = min (nat k) (card (set (concat (map source sentence_pairs))))
          \<and> dom source_dict \<subseteq> set (concat (map source sentence_pairs))
          \<and> ran source_dict \<subseteq> {0..<k}
          \<and> card (dom target_dict) = min (nat k) (card (set (concat (map target sentence_pairs))))
          \<and> dom target_dict \<subseteq> set (concat (map target sentence_pairs))
          \<and> ran target_dict \<subseteq> {0..<k})"
proof -
  have inv: "vocab_inv source_dict \<and> vocab_inv target_dict"
    using assms by (rule get_token_to_index_vocab_inv)
  then have uniq: "inj_on source_dict (dom source_dict)"
      "ran source_dict = {0..<int (card (dom source_dict))}"
      "inj_on target_dict (dom target_dict)"
      "ran target_dict = {0..<int (card (dom target_dict))}"
    by (simp_all add: vocab_inv_def)
  have unbounded: "dom source_dict = set (concat (map source sentence_pairs))
          \<and> (\<forall>i<length (concat (map source sentence_pairs)).
                concat (map source sentence_pairs) ! i
                  \<notin> set (take i (concat (map source sentence_pairs))) \<longrightarrow>
                source_dict (concat (map source sentence_pairs) ! i) =
                  Some (int (card (set (take i (concat (map source sentence_pairs)))))))
          \<and> dom target_dict = set (concat (map target sentence_pairs))
          \<and> (\<forall>i<length (concat (map target sentence_pairs)).
                concat (map target sentence_pairs) ! i
                  \<notin> set (take i (concat (map target sentence_pairs))) \<longrightarrow>
                target_dict (concat (map target sentence_pairs) ! i) =
                  Some (int (card (set (take i (concat (map target sentence_pairs)))))))"
    if "freq_cutoff = None"
  proof -
    from assms that
    have s: "source_dict = fst (index_words (concat (map source sentence_pairs)) (Map.empty, 0))"
      and t: "target_dict = fst (index_words (concat (map target sentence_pairs)) (Map.empty, 0))"
      by (simp_all add: get_token_to_index_unbounded)
    show ?thesis
      unfolding s t
      using index_words_empty_first_occurrence [of "concat (map source sentence_pairs)"]
        index_words_empty_first_occurrence [of "concat (map target sentence_pairs)"]
      by blast
  qed
  have bounded: "card (dom source_dict) = min (nat k) (card (set (concat (map source sentence_pairs))))
          \<and> dom source_dict \<subseteq> set (concat (map source sentence_pairs))
          \<and> ran source_dict \<subseteq> {0..<k}
          \<and> card (dom target_dict) = min (nat k) (card (set (concat (map target sentence_pairs))))
          \<and> dom target_dict \<subseteq> set (concat (map target sentence_pairs))
          \<and> ran target_dict \<subseteq> {0..<k}"
    if "freq_cutoff = Some k" for k
  proof -
    let ?ms = "most_common (fst (count_pairs sentence_pairs ([], [])))"
    let ?mt = "most_common (snd (count_pairs sentence_pairs ([], [])))"
    from assms that
    have s: "source_dict = assign_indices ?ms 0 k Map.empty"
      and t: "target_dict = assign_indices ?mt 0 k Map.empty"
      by (simp_all add: get_token_to_index_bounded)
    have cs: "card (dom source_dict) = min (nat k) (card (set (concat (map source sentence_pairs))))"
      unfolding s assign_indices_empty(3) [OF counted_keys(1)] counted_keys(5) ..
    have ct: "card (dom target_dict) = min (nat k) (card (set (concat (map target sentence_pairs))))"
      unfolding t assign_indices_empty(3) [OF counted_keys(2)] counted_keys(6) ..
    have "set (take (nat k) (map fst ?ms)) \<subseteq> set (map fst ?ms)" by (rule set_take_subset)
    then have ds: "dom source_dict \<subseteq> set (concat (map source sentence_pairs))"
      unfolding s assign_indices_empty(2) [OF counted_keys(1)] counted_keys(3) .
    have "set (take (nat k) (map fst ?mt)) \<subseteq> set (map fst ?mt)" by (rule set_take_subset)
    then have dt: "dom target_dict \<subseteq> set (concat (map target sentence_pairs))"
      unfolding t assign_indices_empty(2) [OF counted_keys(2)] counted_keys(4) .
    have rs: "ran source_dict \<subseteq> {0..<k}" unfolding uniq(2) cs by auto
    have rt: "ran target_dict \<subseteq> {0..<k}" unfolding uniq(4) ct by auto
    from cs ct ds dt rs rt show ?thesis by blast
  qed
  from uniq unbounded bounded show ?thesis by blast
qed

theorem get_token_to_index_spec_witness:
  "get_token_to_index
     [\<lparr>source = [''a'', ''b'', ''a''], target = [''c'']\<rparr>,
      \<lparr>source = [''c'', ''b''], target = [''d'', ''c'']\<rparr>] None =
     ([''a'' \<mapsto> 0, ''b'' \<mapsto> 1, ''c'' \<mapsto> 2], [''c'' \<mapsto> 0, ''d'' \<mapsto> 1])
   \<and> (3 :: nat) < length (concat (map source
         [\<lparr>source = [''a'', ''b'', ''a''], target = [''c'']\<rparr>,
          \<lparr>source = [''c'', ''b''], target = [''d'', ''c'']\<rparr>]))
   \<and> concat (map source
         [\<lparr>source = [''a'', ''b'', ''a''], target = [''c'']\<rparr>,
          \<lparr>source = [''c'', ''b''], target = [''d'', ''c'']\<rparr>]) ! 3
       \<notin> set (take 3 (concat (map source
         [\<lparr>source = [''a'', ''b'', ''a''], target = [''c'']\<rparr>,
          \<lparr>source = [''c'', ''b''], target = [''d'', ''c'']\<rparr>])))
   \<and> [''a'' \<mapsto> 0 :: int, ''b'' \<mapsto> 1, ''c'' \<mapsto> 2] ''c'' = Some 2
   \<and> ran [''a'' \<mapsto> 0 :: int, ''b'' \<mapsto> 1, ''c'' \<mapsto> 2] = {0..<3}
   \<and> get_token_to_index
     [\<lparr>source = [''a'', ''b'', ''b''], target = [''c'']\<rparr>,
      \<lparr>source = [''c'', ''b'', ''c''], target = [''d'', ''c'']\<rparr>] (Some 2) =
     ([''b'' \<mapsto> 0, ''c'' \<mapsto> 1], [''c'' \<mapsto> 0, ''d'' \<mapsto> 1])
   \<and> card (dom [''b'' \<mapsto> 0 :: int, ''c'' \<mapsto> 1]) = 2
   \<and> ran [''b'' \<mapsto> 0 :: int, ''c'' \<mapsto> 1] = {0..<2}"
proof -
  have u: "get_token_to_index
     [\<lparr>source = [''a'', ''b'', ''a''], target = [''c'']\<rparr>,
      \<lparr>source = [''c'', ''b''], target = [''d'', ''c'']\<rparr>] None =
     ([''a'' \<mapsto> 0, ''b'' \<mapsto> 1, ''c'' \<mapsto> 2], [''c'' \<mapsto> 0, ''d'' \<mapsto> 1])"
    by (simp add: get_token_to_index_def)
  have b: "get_token_to_index
     [\<lparr>source = [''a'', ''b'', ''b''], target = [''c'']\<rparr>,
      \<lparr>source = [''c'', ''b'', ''c''], target = [''d'', ''c'']\<rparr>] (Some 2) =
     ([''b'' \<mapsto> 0, ''c'' \<mapsto> 1], [''c'' \<mapsto> 0, ''d'' \<mapsto> 1])"
    by (simp add: get_token_to_index_def Counter_def counter_iadd_def
        keep_positive_def most_common_def)
  have c: "card (dom [''b'' \<mapsto> 0 :: int, ''c'' \<mapsto> 1]) = 2" by simp
  have i: "(3 :: nat) < length (concat (map source
         [\<lparr>source = [''a'', ''b'', ''a''], target = [''c'']\<rparr>,
          \<lparr>source = [''c'', ''b''], target = [''d'', ''c'']\<rparr>]))"
       "concat (map source
         [\<lparr>source = [''a'', ''b'', ''a''], target = [''c'']\<rparr>,
          \<lparr>source = [''c'', ''b''], target = [''d'', ''c'']\<rparr>]) ! 3
       \<notin> set (take 3 (concat (map source
         [\<lparr>source = [''a'', ''b'', ''a''], target = [''c'']\<rparr>,
          \<lparr>source = [''c'', ''b''], target = [''d'', ''c'']\<rparr>])))"
    by (simp_all add: numeral_3_eq_3)
  have s: "[''a'' \<mapsto> 0 :: int, ''b'' \<mapsto> 1, ''c'' \<mapsto> 2] ''c'' = Some 2" by simp
  have cu: "card (dom [''a'' \<mapsto> 0 :: int, ''b'' \<mapsto> 1, ''c'' \<mapsto> 2]) = 3" by simp
  have "ran [''a'' \<mapsto> 0 :: int, ''b'' \<mapsto> 1, ''c'' \<mapsto> 2] =
      {0..<int (card (dom [''a'' \<mapsto> 0 :: int, ''b'' \<mapsto> 1, ''c'' \<mapsto> 2]))}"
    using get_token_to_index_spec [OF u] by blast
  then have ru: "ran [''a'' \<mapsto> 0 :: int, ''b'' \<mapsto> 1, ''c'' \<mapsto> 2] = {0..<3}"
    by (simp only: cu of_nat_numeral)
  have "ran [''b'' \<mapsto> 0 :: int, ''c'' \<mapsto> 1] =
      {0..<int (card (dom [''b'' \<mapsto> 0 :: int, ''c'' \<mapsto> 1]))}"
    using get_token_to_index_spec [OF b] by blast
  then have rb: "ran [''b'' \<mapsto> 0 :: int, ''c'' \<mapsto> 1] = {0..<2}"
    by (simp only: c of_nat_numeral)
  from u b c i s ru rb show ?thesis by blast
qed


subsection \<open>The tokenizer\<close>

lemma np_append_int64:
  "- (2 ^ 63) \<le> v \<Longrightarrow> v < 2 ^ 63 \<Longrightarrow> np_append fl (IntArray xs) v = IntArray (xs @ [v])"
  by (simp add: np_append_def)

lemma foldl_np_append_int64:
  "\<forall>v\<in>set vs. - (2 ^ 63) \<le> v \<and> v < 2 ^ 63 \<Longrightarrow>
     foldl (np_append fl) (IntArray xs) vs = IntArray (xs @ vs)"
proof (induction vs arbitrary: xs)
  case Nil
  then show ?case by simp
next
  case (Cons v vs)
  then have "np_append fl (IntArray xs) v = IntArray (xs @ [v])"
    by (simp add: np_append_int64)
  moreover from Cons.prems have "\<forall>v\<in>set vs. - (2 ^ 63) \<le> v \<and> v < 2 ^ 63" by simp
  ultimately show ?case using Cons.IH [of "xs @ [v]"] by simp
qed

lemma tokenize_words_spec:
  "tokenize_words fl d ws arr =
     (if set ws \<subseteq> dom d then Some (foldl (np_append fl) arr (map (\<lambda>w. the (d w)) ws))
      else None)"
  by (induction ws arbitrary: arr) (auto split: option.splits)

lemma tokenize_loop_spec:
  "tokenize_loop fl source_dict target_dict sps res =
     res @ map (\<lambda>sp.
                 \<lparr>source_tokens =
                    foldl (np_append fl) (IntArray []) (map (\<lambda>w. the (source_dict w)) (source sp)),
                  target_tokens =
                    foldl (np_append fl) (IntArray []) (map (\<lambda>w. the (target_dict w)) (target sp))\<rparr>)
             (filter (\<lambda>sp. set (source sp) \<subseteq> dom source_dict \<and>
                            set (target sp) \<subseteq> dom target_dict) sps)"
  by (induction sps arbitrary: res) (simp_all add: tokenize_words_spec)

lemma the_in_ran: "w \<in> dom d \<Longrightarrow> the (d w) \<in> ran d"
  by (auto simp: ran_def)

lemma tokenize_sents_exact:
  assumes "\<forall>v\<in>ran source_dict \<union> ran target_dict. - (2 ^ 63) \<le> v \<and> v < 2 ^ 63"
  shows "tokenize_sents fl sentence_pairs source_dict target_dict =
     map (\<lambda>sp. \<lparr>source_tokens = IntArray (map (\<lambda>w. the (source_dict w)) (source sp)),
                 target_tokens = IntArray (map (\<lambda>w. the (target_dict w)) (target sp))\<rparr>)
       (filter (\<lambda>sp. set (source sp) \<subseteq> dom source_dict \<and>
                      set (target sp) \<subseteq> dom target_dict) sentence_pairs)"
proof -
  have "foldl (np_append fl) (IntArray []) (map (\<lambda>w. the (d w)) ws) =
        IntArray (map (\<lambda>w. the (d w)) ws)"
    if "set ws \<subseteq> dom d" and "ran d \<subseteq> ran source_dict \<union> ran target_dict"
    for d :: "string \<rightharpoonup> int" and ws
  proof -
    have "\<forall>v\<in>set (map (\<lambda>w. the (d w)) ws). - (2 ^ 63) \<le> v \<and> v < 2 ^ 63"
    proof
      fix v
      assume "v \<in> set (map (\<lambda>w. the (d w)) ws)"
      then obtain w where "w \<in> set ws" and v: "v = the (d w)" by auto
      with that(1) have "w \<in> dom d" by blast
      then have "v \<in> ran d" unfolding v by (rule the_in_ran)
      with that(2) have "v \<in> ran source_dict \<union> ran target_dict" by blast
      with assms show "- (2 ^ 63) \<le> v \<and> v < 2 ^ 63" by blast
    qed
    from foldl_np_append_int64 [OF this, of fl "[]"] show ?thesis by simp
  qed
  then show ?thesis
    unfolding tokenize_sents_def tokenize_loop_spec
    by (auto intro!: map_cong [OF refl])
qed

text \<open>
  Claim C6. \<open>tokenize_sents\<close> emits, in their original order, exactly the sentence pairs
  all of whose source tokens are keys of the source dictionary and all of whose target
  tokens are keys of the target dictionary, each with the array that holds the index of
  every one of its tokens (so no emitted pair is partially mapped); the output is at most as
  long as the input. When the values of the dictionaries fit 64-bit signed integers, the
  arrays are integer arrays that hold exactly the indices of the tokens. When the
  dictionaries come from \<open>get_token_to_index\<close> and have at most \<open>2\<^sup>6\<^sup>3\<close> tokens each, every
  emitted index is at least 0 and less than the size of its dictionary.
\<close>
theorem tokenize_sents_spec:
  "tokenize_sents fl sentence_pairs source_dict target_dict =
     map (\<lambda>sp.
           \<lparr>source_tokens =
              foldl (np_append fl) (IntArray []) (map (\<lambda>w. the (source_dict w)) (source sp)),
            target_tokens =
              foldl (np_append fl) (IntArray []) (map (\<lambda>w. the (target_dict w)) (target sp))\<rparr>)
       (filter (\<lambda>sp. set (source sp) \<subseteq> dom source_dict \<and>
                      set (target sp) \<subseteq> dom target_dict) sentence_pairs)
   \<and> length (tokenize_sents fl sentence_pairs source_dict target_dict) \<le> length sentence_pairs
   \<and> ((\<forall>v\<in>ran source_dict \<union> ran target_dict. - (2 ^ 63) \<le> v \<and> v < 2 ^ 63) \<longrightarrow>
        tokenize_sents fl sentence_pairs source_dict target_dict =
          map (\<lambda>sp. \<lparr>source_tokens = IntArray (map (\<lambda>w. the (source_dict w)) (source sp)),
                      target_tokens = IntArray (map (\<lambda>w. the (target_dict w)) (target sp))\<rparr>)
            (filter (\<lambda>sp. set (source sp) \<subseteq> dom source_dict \<and>
                           set (target sp) \<subseteq> dom target_dict) sentence_pairs))
   \<and> (get_token_to_index corpus freq_cutoff = (source_dict, target_dict) \<longrightarrow>
        int (card (dom source_dict)) \<le> 2 ^ 63 \<longrightarrow> int (card (dom target_dict)) \<le> 2 ^ 63 \<longrightarrow>
        (\<forall>tp\<in>set (tokenize_sents fl sentence_pairs source_dict target_dict).
           \<exists>xs ys. source_tokens tp = IntArray xs \<and> target_tokens tp = IntArray ys
             \<and> (\<forall>i\<in>set xs. 0 \<le> i \<and> i < int (card (dom source_dict)))
             \<and> (\<forall>i\<in>set ys. 0 \<le> i \<and> i < int (card (dom target_dict)))))"
proof (intro conjI impI)
  show eq: "tokenize_sents fl sentence_pairs source_dict target_dict =
     map (\<lambda>sp.
           \<lparr>source_tokens =
              foldl (np_append fl) (IntArray []) (map (\<lambda>w. the (source_dict w)) (source sp)),
            target_tokens =
              foldl (np_append fl) (IntArray []) (map (\<lambda>w. the (target_dict w)) (target sp))\<rparr>)
       (filter (\<lambda>sp. set (source sp) \<subseteq> dom source_dict \<and>
                      set (target sp) \<subseteq> dom target_dict) sentence_pairs)"
    by (simp add: tokenize_sents_def tokenize_loop_spec)
  show "length (tokenize_sents fl sentence_pairs source_dict target_dict) \<le> length sentence_pairs"
    unfolding eq by simp
next
  assume "\<forall>v\<in>ran source_dict \<union> ran target_dict. - (2 ^ 63) \<le> v \<and> v < 2 ^ 63"
  then show "tokenize_sents fl sentence_pairs source_dict target_dict =
          map (\<lambda>sp. \<lparr>source_tokens = IntArray (map (\<lambda>w. the (source_dict w)) (source sp)),
                      target_tokens = IntArray (map (\<lambda>w. the (target_dict w)) (target sp))\<rparr>)
            (filter (\<lambda>sp. set (source sp) \<subseteq> dom source_dict \<and>
                           set (target sp) \<subseteq> dom target_dict) sentence_pairs)"
    by (rule tokenize_sents_exact)
next
  assume g: "get_token_to_index corpus freq_cutoff = (source_dict, target_dict)"
    and cs: "int (card (dom source_dict)) \<le> 2 ^ 63"
    and ct: "int (card (dom target_dict)) \<le> 2 ^ 63"
  from get_token_to_index_vocab_inv [OF g]
  have rs: "ran source_dict = {0..<int (card (dom source_dict))}"
    and rt: "ran target_dict = {0..<int (card (dom target_dict))}"
    by (simp_all add: vocab_inv_def)
  have bound: "\<forall>v\<in>ran source_dict \<union> ran target_dict. - (2 ^ 63) \<le> v \<and> v < 2 ^ 63"
    unfolding rs rt using cs ct by auto
  note ex = tokenize_sents_exact [OF bound, of fl sentence_pairs]
  show "\<forall>tp\<in>set (tokenize_sents fl sentence_pairs source_dict target_dict).
           \<exists>xs ys. source_tokens tp = IntArray xs \<and> target_tokens tp = IntArray ys
             \<and> (\<forall>i\<in>set xs. 0 \<le> i \<and> i < int (card (dom source_dict)))
             \<and> (\<forall>i\<in>set ys. 0 \<le> i \<and> i < int (card (dom target_dict)))"
  proof
    fix tp
    assume "tp \<in> set (tokenize_sents fl sentence_pairs source_dict target_dict)"
    then have "tp \<in> (\<lambda>sp. \<lparr>source_tokens = IntArray (map (\<lambda>w. the (source_dict w)) (source sp)),
                 target_tokens = IntArray (map (\<lambda>w. the (target_dict w)) (target sp))\<rparr>) `
       set (filter (\<lambda>sp. set (source sp) \<subseteq> dom source_dict \<and>
                      set (target sp) \<subseteq> dom target_dict) sentence_pairs)"
      unfolding ex set_map .
    then obtain sp where
      tp: "tp = \<lparr>source_tokens = IntArray (map (\<lambda>w. the (source_dict w)) (source sp)),
                 target_tokens = IntArray (map (\<lambda>w. the (target_dict w)) (target sp))\<rparr>"
      and "sp \<in> set (filter (\<lambda>sp. set (source sp) \<subseteq> dom source_dict \<and>
                      set (target sp) \<subseteq> dom target_dict) sentence_pairs)"
      by (rule imageE)
    then have sp: "set (source sp) \<subseteq> dom source_dict" "set (target sp) \<subseteq> dom target_dict"
      by simp_all
    have "set (map (\<lambda>w. the (source_dict w)) (source sp)) \<subseteq> ran source_dict"
      using sp(1) the_in_ran [of _ source_dict] by auto
    then have s: "\<forall>i\<in>set (map (\<lambda>w. the (source_dict w)) (source sp)).
        0 \<le> i \<and> i < int (card (dom source_dict))"
      unfolding rs by auto
    have "set (map (\<lambda>w. the (target_dict w)) (target sp)) \<subseteq> ran target_dict"
      using sp(2) the_in_ran [of _ target_dict] by auto
    then have t: "\<forall>i\<in>set (map (\<lambda>w. the (target_dict w)) (target sp)).
        0 \<le> i \<and> i < int (card (dom target_dict))"
      unfolding rt by auto
    from s t show "\<exists>xs ys. source_tokens tp = IntArray xs \<and> target_tokens tp = IntArray ys
             \<and> (\<forall>i\<in>set xs. 0 \<le> i \<and> i < int (card (dom source_dict)))
             \<and> (\<forall>i\<in>set ys. 0 \<le> i \<and> i < int (card (dom target_dict)))"
      unfolding tp by (intro exI [of _ "map (\<lambda>w. the (source_dict w)) (source sp)"]
          exI [of _ "map (\<lambda>w. the (target_dict w)) (target sp)"]) simp
  qed
qed


theorem tokenize_sents_spec_witness:
  "get_token_to_index
     [\<lparr>source = [''a'', ''b'', ''a''], target = [''c'']\<rparr>,
      \<lparr>source = [''c'', ''b''], target = [''d'', ''c'']\<rparr>] None =
     ([''a'' \<mapsto> 0 :: int, ''b'' \<mapsto> 1, ''c'' \<mapsto> 2], [''c'' \<mapsto> 0 :: int, ''d'' \<mapsto> 1])
   \<and> int (card (dom [''a'' \<mapsto> 0 :: int, ''b'' \<mapsto> 1, ''c'' \<mapsto> 2])) \<le> 2 ^ 63
   \<and> int (card (dom [''c'' \<mapsto> 0 :: int, ''d'' \<mapsto> 1])) \<le> 2 ^ 63
   \<and> ran [''a'' \<mapsto> 0 :: int, ''b'' \<mapsto> 1, ''c'' \<mapsto> 2] \<union> ran [''c'' \<mapsto> 0 :: int, ''d'' \<mapsto> 1] \<subseteq> {- (2 ^ 63)..<2 ^ 63}
   \<and> tokenize_sents (\<lambda>x. x)
       [\<lparr>source = [''a'', ''x''], target = [''c'']\<rparr>,
        \<lparr>source = [''c'', ''a'', ''c''], target = [''d'']\<rparr>,
        \<lparr>source = [''b''], target = [''d'', ''y'']\<rparr>,
        \<lparr>source = [], target = [''c'', ''d'']\<rparr>]
       [''a'' \<mapsto> 0 :: int, ''b'' \<mapsto> 1, ''c'' \<mapsto> 2] [''c'' \<mapsto> 0 :: int, ''d'' \<mapsto> 1] =
     [\<lparr>source_tokens = IntArray [2, 0, 2], target_tokens = IntArray [1]\<rparr>,
      \<lparr>source_tokens = IntArray [], target_tokens = IntArray [0, 1]\<rparr>]
   \<and> (2 :: int) \<in> set [2, 0, 2] \<and> (0 :: int) \<le> 2 \<and> (2 :: int) < int (card (dom [''a'' \<mapsto> 0 :: int, ''b'' \<mapsto> 1, ''c'' \<mapsto> 2]))"
proof -
  have g: "get_token_to_index
     [\<lparr>source = [''a'', ''b'', ''a''], target = [''c'']\<rparr>,
      \<lparr>source = [''c'', ''b''], target = [''d'', ''c'']\<rparr>] None =
     ([''a'' \<mapsto> 0 :: int, ''b'' \<mapsto> 1, ''c'' \<mapsto> 2], [''c'' \<mapsto> 0 :: int, ''d'' \<mapsto> 1])"
    by (simp add: get_token_to_index_def)
  have cs: "int (card (dom [''a'' \<mapsto> 0 :: int, ''b'' \<mapsto> 1, ''c'' \<mapsto> 2])) \<le> 2 ^ 63" by simp
  have ct: "int (card (dom [''c'' \<mapsto> 0 :: int, ''d'' \<mapsto> 1])) \<le> 2 ^ 63" by simp
  have b: "ran [''a'' \<mapsto> 0 :: int, ''b'' \<mapsto> 1, ''c'' \<mapsto> 2] \<union> ran [''c'' \<mapsto> 0 :: int, ''d'' \<mapsto> 1] \<subseteq> {- (2 ^ 63)..<2 ^ 63}" by simp
  have t: "tokenize_sents (\<lambda>x. x)
       [\<lparr>source = [''a'', ''x''], target = [''c'']\<rparr>,
        \<lparr>source = [''c'', ''a'', ''c''], target = [''d'']\<rparr>,
        \<lparr>source = [''b''], target = [''d'', ''y'']\<rparr>,
        \<lparr>source = [], target = [''c'', ''d'']\<rparr>]
       [''a'' \<mapsto> 0 :: int, ''b'' \<mapsto> 1, ''c'' \<mapsto> 2] [''c'' \<mapsto> 0 :: int, ''d'' \<mapsto> 1] =
     [\<lparr>source_tokens = IntArray [2, 0, 2], target_tokens = IntArray [1]\<rparr>,
      \<lparr>source_tokens = IntArray [], target_tokens = IntArray [0, 1]\<rparr>]"
    by (simp add: tokenize_sents_def np_append_def)
  have e: "(2 :: int) \<in> set [2, 0, 2] \<and> (0 :: int) \<le> 2 \<and> (2 :: int) < int (card (dom [''a'' \<mapsto> 0 :: int, ''b'' \<mapsto> 1, ''c'' \<mapsto> 2]))" by simp
  from tokenize_sents_spec [of "\<lambda>x. x"
       "[\<lparr>source = [''a'', ''x''], target = [''c'']\<rparr>,
        \<lparr>source = [''c'', ''a'', ''c''], target = [''d'']\<rparr>,
        \<lparr>source = [''b''], target = [''d'', ''y'']\<rparr>,
        \<lparr>source = [], target = [''c'', ''d'']\<rparr>]"
       "[''a'' \<mapsto> 0 :: int, ''b'' \<mapsto> 1, ''c'' \<mapsto> 2]" "[''c'' \<mapsto> 0 :: int, ''d'' \<mapsto> 1]"
       "[\<lparr>source = [''a'', ''b'', ''a''], target = [''c'']\<rparr>,
      \<lparr>source = [''c'', ''b''], target = [''d'', ''c'']\<rparr>]" None]
    g cs ct b t e
  show ?thesis by blast
qed

end
